theory Spec2Isabelle
  imports Main "HOL-Library.List_Lexorder" "HOL-Library.Sublist"
begin

section \<open>Python strings\<close>

text \<open>
  A Python \<^verbatim>\<open>str\<close> is a sequence of Unicode code points, and \<^verbatim>\<open>len\<close> counts code
  points. A string is therefore a list of natural numbers; \<open>str\<close> turns an ASCII
  literal into such a list.
\<close>

type_synonym pystr = "nat list"

definition str :: "string \<Rightarrow> pystr" where
  "str s = map of_char s"

text \<open>\<^verbatim>\<open>str.isspace\<close> for one code point; \<^verbatim>\<open>\s\<close> of the \<^verbatim>\<open>re\<close> module on a
  \<^verbatim>\<open>str\<close> pattern matches the same code points.\<close>

definition py_isspace :: "nat \<Rightarrow> bool" where
  "py_isspace c \<longleftrightarrow>
     (9 \<le> c \<and> c \<le> 13) \<or> (28 \<le> c \<and> c \<le> 32) \<or> c = 133 \<or> c = 160 \<or> c = 5760 \<or>
     (8192 \<le> c \<and> c \<le> 8202) \<or> c = 8232 \<or> c = 8233 \<or> c = 8239 \<or> c = 8287 \<or> c = 12288"

definition lstrip :: "pystr \<Rightarrow> pystr" where
  "lstrip s = dropWhile py_isspace s"

definition rstrip :: "pystr \<Rightarrow> pystr" where
  "rstrip s = rev (dropWhile py_isspace (rev s))"

definition strip :: "pystr \<Rightarrow> pystr" where
  "strip s = rstrip (lstrip s)"

text \<open>\<^verbatim>\<open>s.strip(chars)\<close>: strips the code points of \<open>chars\<close> from both ends.\<close>

definition strip_chars :: "pystr \<Rightarrow> pystr \<Rightarrow> pystr" where
  "strip_chars chars s =
     rev (dropWhile (\<lambda>c. c \<in> set chars) (rev (dropWhile (\<lambda>c. c \<in> set chars) s)))"

text \<open>\<^verbatim>\<open>sep.join(xs)\<close>.\<close>

fun join :: "pystr \<Rightarrow> pystr list \<Rightarrow> pystr" where
  "join sep [] = []"
| "join sep [x] = x"
| "join sep (x # y # ys) = x @ sep @ join sep (y # ys)"

text \<open>\<^verbatim>\<open>s.split(",")\<close> for a separator of one code point: the result is never empty.\<close>

fun split_on :: "nat \<Rightarrow> pystr \<Rightarrow> pystr list" where
  "split_on sep [] = [[]]"
| "split_on sep (c # cs) =
     (if c = sep then [] # split_on sep cs
      else (case split_on sep cs of
              [] \<Rightarrow> [[c]]
            | p # ps \<Rightarrow> (c # p) # ps))"

section \<open>The line packing of \<^verbatim>\<open>update_ams_helper\<close>\<close>

text \<open>The continuation indent: three tab characters.\<close>

definition indent :: pystr where
  "indent = [9, 9, 9]"

text \<open>
  \<^verbatim>\<open>token = f'"{item}"'\<close>, with a comma appended when \<^verbatim>\<open>i < len(combined) - 1\<close>;
  \<open>n\<close> is \<^verbatim>\<open>len(combined)\<close>.
\<close>

definition token_of :: "nat \<Rightarrow> nat \<Rightarrow> pystr \<Rightarrow> pystr" where
  "token_of n i item =
     (let token = [34] @ item @ [34]
      in if int i < int n - 1 then token @ [44] else token)"

text \<open>
  The loop \<^verbatim>\<open>for i, item in enumerate(combined)\<close>: the state is the pair of
  \<^verbatim>\<open>lines\<close> and \<^verbatim>\<open>current\<close>.
\<close>

fun pack_loop :: "nat \<Rightarrow> nat \<Rightarrow> pystr list \<Rightarrow> pystr list \<times> pystr \<Rightarrow> pystr list \<times> pystr" where
  "pack_loop n i [] (lines, current) = (lines, current)"
| "pack_loop n i (item # rest) (lines, current) =
     (let token = token_of n i item
      in if length current + length token > 100
         then pack_loop n (Suc i) rest (lines @ [rstrip current], indent @ token @ [32])
         else pack_loop n (Suc i) rest (lines, current @ token @ [32]))"

text \<open>The list \<^verbatim>\<open>lines\<close> after the loop and the final
  \<^verbatim>\<open>if current.strip(): lines.append(current.rstrip())\<close>.\<close>

definition pack_lines :: "pystr list \<Rightarrow> pystr list" where
  "pack_lines combined =
     (case pack_loop (length combined) 0 combined ([], indent) of
        (lines, current) \<Rightarrow>
          if strip current \<noteq> [] then lines @ [rstrip current] else lines)"

text \<open>\<^verbatim>\<open>new_body = "\n" + "\n".join(lines) + "\n\t\t"\<close>.\<close>

definition new_body_of :: "pystr list \<Rightarrow> pystr" where
  "new_body_of combined = [10] @ join [10] (pack_lines combined) @ [10, 9, 9]"

section \<open>The regular expressions of the patchers\<close>

text \<open>
  \<^verbatim>\<open>re.search\<close> for a pattern that matches one fixed text: the index at which the
  first occurrence starts. The two patterns of \<^verbatim>\<open>update_ams_helper\<close> are of this
  kind: outside their escapes \<^verbatim>\<open>\[\<close>, \<^verbatim>\<open>\{\<close> and \<^verbatim>\<open>\}\<close> they have no operator.
\<close>

fun find_lit :: "pystr \<Rightarrow> pystr \<Rightarrow> nat option" where
  "find_lit pat [] = (if pat = [] then Some 0 else None)"
| "find_lit pat (c # cs) =
     (if take (length pat) (c # cs) = pat then Some 0
      else map_option Suc (find_lit pat cs))"

definition start_pat :: pystr where
  "start_pat = str ''static final String[] NETWORK_SLUGS_WITH_BID_ADAPTERS = new String[]{''"

definition end_pat :: pystr where
  "end_pat = str ''};''"

text \<open>
  \<^verbatim>\<open>re.findall(r'"([^"]+)"', array_body)\<close>: the matches from left to right, without
  overlap. At a double quote the class takes every character up to the next double
  quote; the match needs at least one such character and the closing quote, and
  otherwise the search goes on at the next position.
\<close>

function findall_quoted :: "pystr \<Rightarrow> pystr list" where
  "findall_quoted [] = []"
| "findall_quoted (c # cs) =
     (if c = 34 \<and> takeWhile (\<lambda>x. x \<noteq> 34) cs \<noteq> [] \<and> dropWhile (\<lambda>x. x \<noteq> 34) cs \<noteq> []
      then takeWhile (\<lambda>x. x \<noteq> 34) cs # findall_quoted (tl (dropWhile (\<lambda>x. x \<noteq> 34) cs))
      else findall_quoted cs)"
  by pat_completeness auto
termination
  by (relation "measure length")
    (auto simp: less_Suc_eq_le intro: order_trans [OF diff_le_self length_dropWhile_le])

text \<open>
  \<^verbatim>\<open>re.search(rf"\"{re.escape(value)}\"\s*\]", text)\<close>: is there a position where the
  quoted value stands, followed by any white space and a closing bracket.
\<close>

definition match_quoted_here :: "pystr \<Rightarrow> pystr \<Rightarrow> bool" where
  "match_quoted_here v s \<longleftrightarrow>
     take (length v + 2) s = [34] @ v @ [34] \<and>
     (case dropWhile py_isspace (drop (length v + 2) s) of
        [] \<Rightarrow> False
      | c # _ \<Rightarrow> c = 93)"

fun search_quoted :: "pystr \<Rightarrow> pystr \<Rightarrow> bool" where
  "search_quoted v [] = match_quoted_here v []"
| "search_quoted v (c # cs) = (match_quoted_here v (c # cs) \<or> search_quoted v cs)"

text \<open>
  The pattern \<^verbatim>\<open>\]\s*$\<close> under \<^verbatim>\<open>re.MULTILINE\<close>, tried right after a closing
  bracket: how many white-space characters the match takes. \<^verbatim>\<open>\s*\<close> is greedy and
  \<^verbatim>\<open>$\<close> holds at the end of the text and before a newline, so the match takes the
  whole white-space run when the text ends there, and otherwise the run up to its last
  newline; there is no match when the run is followed by another character and has no
  newline.
\<close>

definition eol_ws :: "pystr \<Rightarrow> nat option" where
  "eol_ws cs =
     (let w = takeWhile py_isspace cs
      in if length w = length cs then Some (length w)
         else if 10 \<in> set w then Some (length w - 1 - length (takeWhile (\<lambda>c. c \<noteq> 10) (rev w)))
         else None)"

text \<open>
  \<^verbatim>\<open>re.sub(r"\]\s*$", repl, text, flags=re.MULTILINE)\<close> for a replacement without
  backslash: every match, from left to right, is replaced.
\<close>

fun sub_bracket :: "pystr \<Rightarrow> pystr \<Rightarrow> pystr" where
  "sub_bracket repl [] = []"
| "sub_bracket repl (c # cs) =
     (if c = 93 then
        (case eol_ws cs of
           Some k \<Rightarrow> repl @ sub_bracket repl (drop k cs)
         | None \<Rightarrow> c # sub_bracket repl cs)
      else c # sub_bracket repl cs)"

section \<open>The \<^verbatim>\<open>json\<close> module\<close>

text \<open>
  The values \<^verbatim>\<open>json.loads\<close> returns. A number with a fraction or an exponent and the
  constants \<^verbatim>\<open>NaN\<close>, \<^verbatim>\<open>Infinity\<close> and \<^verbatim>\<open>-Infinity\<close> are floats in Python; the model keeps
  their text and does not compute with them. An object is a \<^verbatim>\<open>dict\<close>: the keys in
  insertion order, each once.
\<close>

datatype json =
    JNull
  | JBool bool
  | JInt int
  | JFloat pystr
  | JString pystr
  | JArray "json list"
  | JObject "(pystr \<times> json) list"

definition json_ws :: "nat \<Rightarrow> bool" where
  "json_ws c \<longleftrightarrow> c = 32 \<or> c = 9 \<or> c = 10 \<or> c = 13"

definition skip_ws :: "pystr \<Rightarrow> pystr" where
  "skip_ws s = dropWhile json_ws s"

definition is_digit :: "nat \<Rightarrow> bool" where
  "is_digit c \<longleftrightarrow> 48 \<le> c \<and> c \<le> 57"

definition hexval :: "nat \<Rightarrow> nat option" where
  "hexval c =
     (if 48 \<le> c \<and> c \<le> 57 then Some (c - 48)
      else if 97 \<le> c \<and> c \<le> 102 then Some (c - 87)
      else if 65 \<le> c \<and> c \<le> 70 then Some (c - 55)
      else None)"

text \<open>The four hexadecimal digits of a \<^verbatim>\<open>\uXXXX\<close> escape.\<close>

definition hex4 :: "pystr \<Rightarrow> nat option" where
  "hex4 s =
     (case s of
        a # b # c # d # _ \<Rightarrow>
          (case (hexval a, hexval b, hexval c, hexval d) of
             (Some x, Some y, Some z, Some u) \<Rightarrow> Some (((x * 16 + y) * 16 + z) * 16 + u)
           | _ \<Rightarrow> None)
      | _ \<Rightarrow> None)"

text \<open>
  One escape of a JSON string, read after its backslash: the code point and the rest of
  the text. A high surrogate followed by the escape of a low surrogate is one code
  point.
\<close>

definition scan_escape :: "pystr \<Rightarrow> (nat \<times> pystr) option" where
  "scan_escape s =
     (case s of
        [] \<Rightarrow> None
      | c # cs \<Rightarrow>
          if c = 117 then
            (case hex4 cs of
               None \<Rightarrow> None
             | Some u \<Rightarrow>
                 let r = drop 4 cs
                 in if 55296 \<le> u \<and> u \<le> 56319 \<and> 6 < length r \<and> take 2 r = [92, 117] then
                      (case hex4 (drop 2 r) of
                         None \<Rightarrow> None
                       | Some u2 \<Rightarrow>
                           if 56320 \<le> u2 \<and> u2 \<le> 57343
                           then Some (65536 + ((u - 55296) * 1024 + (u2 - 56320)), drop 6 r)
                           else Some (u, r))
                    else Some (u, r))
          else if c = 34 then Some (34, cs)
          else if c = 92 then Some (92, cs)
          else if c = 47 then Some (47, cs)
          else if c = 98 then Some (8, cs)
          else if c = 102 then Some (12, cs)
          else if c = 110 then Some (10, cs)
          else if c = 114 then Some (13, cs)
          else if c = 116 then Some (9, cs)
          else None)"

text \<open>
  \<^verbatim>\<open>scanstring\<close> in strict mode, read after the opening quote: the decoded string and
  the text after the closing quote. A control character inside the string is an error.
\<close>

function scanstring :: "pystr \<Rightarrow> (pystr \<times> pystr) option" where
  "scanstring [] = None"
| "scanstring (c # cs) =
     (if c = 34 then Some ([], cs)
      else if c = 92 then
        (case scan_escape cs of
           None \<Rightarrow> None
         | Some (u, r) \<Rightarrow>
             (case scanstring r of
                None \<Rightarrow> None
              | Some (t, r') \<Rightarrow> Some (u # t, r')))
      else if c < 32 then None
      else (case scanstring cs of
              None \<Rightarrow> None
            | Some (t, r') \<Rightarrow> Some (c # t, r')))"
  by pat_completeness auto
termination
  by (relation "measure length")
    (auto simp: scan_escape_def Let_def split: list.splits option.splits if_splits)

definition int_of_digits :: "pystr \<Rightarrow> nat" where
  "int_of_digits ds = foldl (\<lambda>a d. 10 * a + (d - 48)) 0 ds"

text \<open>
  A JSON number at the front of the text: an optional minus, \<^verbatim>\<open>0\<close> or a digit string
  without leading zero, then an optional fraction and an optional exponent, each taken
  only if complete. \<open>scan_frac\<close> and \<open>scan_exp\<close> give the text after a fraction and
  after an exponent, if there is one. Without fraction and exponent the number is an
  \<^verbatim>\<open>int\<close>.
\<close>

definition scan_frac :: "pystr \<Rightarrow> pystr option" where
  "scan_frac r =
     (case r of
        p # x # t \<Rightarrow> if p = 46 \<and> is_digit x then Some (dropWhile is_digit (x # t)) else None
      | _ \<Rightarrow> None)"

definition scan_exp :: "pystr \<Rightarrow> pystr option" where
  "scan_exp r =
     (case r of
        [] \<Rightarrow> None
      | e # e1 \<Rightarrow>
          if e \<noteq> 101 \<and> e \<noteq> 69 then None
          else
            let e2 = (if e1 \<noteq> [] \<and> (hd e1 = 45 \<or> hd e1 = 43) then tl e1 else e1)
            in if e2 \<noteq> [] \<and> is_digit (hd e2) then Some (dropWhile is_digit e2) else None)"

definition match_number :: "pystr \<Rightarrow> (json \<times> pystr) option" where
  "match_number s =
     (let neg = (s \<noteq> [] \<and> hd s = 45);
          s1 = (if neg then tl s else s)
      in case s1 of
           [] \<Rightarrow> None
         | d # r \<Rightarrow>
             if \<not> is_digit d then None
             else
               let ds = (if d = 48 then [d] else d # takeWhile is_digit r);
                   r1 = (if d = 48 then r else dropWhile is_digit r);
                   r2 = (case scan_frac r1 of Some t \<Rightarrow> t | None \<Rightarrow> r1);
                   r3 = (case scan_exp r2 of Some t \<Rightarrow> t | None \<Rightarrow> r2)
               in if scan_frac r1 \<noteq> None \<or> scan_exp r2 \<noteq> None
                  then Some (JFloat (take (length s - length r3) s), r3)
                  else Some (JInt (if neg then - int (int_of_digits ds)
                                   else int (int_of_digits ds)), r3))"

text \<open>\<^verbatim>\<open>dict(pairs)\<close>: a later pair with a known key replaces the value in place.\<close>

fun dict_set :: "pystr \<Rightarrow> json \<Rightarrow> (pystr \<times> json) list \<Rightarrow> (pystr \<times> json) list" where
  "dict_set k v [] = [(k, v)]"
| "dict_set k v ((k', v') # kvs) =
     (if k = k' then (k, v) # kvs else (k', v') # dict_set k v kvs)"

definition dict_of_pairs :: "(pystr \<times> json) list \<Rightarrow> (pystr \<times> json) list" where
  "dict_of_pairs kvs = foldl (\<lambda>d (k, v). dict_set k v d) [] kvs"

text \<open>
  The scanner: one value at the front of the text, with the text after it.
  \<open>parse_items\<close> reads the elements of an array after its opening bracket and
  \<open>parse_members\<close> the members of an object after its opening brace. The tests on the
  length of the remaining text only make the recursion well-founded: a value, and a
  string, always leave less text than they were given (\<open>parse_value_shorter\<close>,
  \<open>scanstring_shorter\<close>), so they never fail.
\<close>

function parse_value :: "pystr \<Rightarrow> (json \<times> pystr) option"
  and parse_items :: "pystr \<Rightarrow> (json list \<times> pystr) option"
  and parse_members :: "pystr \<Rightarrow> ((pystr \<times> json) list \<times> pystr) option"
where
  "parse_value [] = None"
| "parse_value (c # cs) =
     (if c = 34 then
        (case scanstring cs of
           None \<Rightarrow> None
         | Some (t, r) \<Rightarrow> Some (JString t, r))
      else if c = 123 then
        (if skip_ws cs \<noteq> [] \<and> hd (skip_ws cs) = 125 then Some (JObject [], tl (skip_ws cs))
         else (case parse_members (skip_ws cs) of
                 None \<Rightarrow> None
               | Some (kvs, r) \<Rightarrow> Some (JObject (dict_of_pairs kvs), r)))
      else if c = 91 then
        (if skip_ws cs \<noteq> [] \<and> hd (skip_ws cs) = 93 then Some (JArray [], tl (skip_ws cs))
         else (case parse_items (skip_ws cs) of
                 None \<Rightarrow> None
               | Some (vs, r) \<Rightarrow> Some (JArray vs, r)))
      else if take 4 (c # cs) = str ''null'' then Some (JNull, drop 4 (c # cs))
      else if take 4 (c # cs) = str ''true'' then Some (JBool True, drop 4 (c # cs))
      else if take 5 (c # cs) = str ''false'' then Some (JBool False, drop 5 (c # cs))
      else if take 3 (c # cs) = str ''NaN'' then Some (JFloat (str ''NaN''), drop 3 (c # cs))
      else if take 8 (c # cs) = str ''Infinity'' then Some (JFloat (str ''Infinity''), drop 8 (c # cs))
      else if take 9 (c # cs) = str ''-Infinity'' then Some (JFloat (str ''-Infinity''), drop 9 (c # cs))
      else match_number (c # cs))"
| "parse_items s =
     (case parse_value s of
        None \<Rightarrow> None
      | Some (v, r) \<Rightarrow>
          if length r < length s then
            (case skip_ws r of
               [] \<Rightarrow> None
             | d # r2 \<Rightarrow>
                 if d = 93 then Some ([v], r2)
                 else if d = 44 then
                   (case parse_items (skip_ws r2) of
                      None \<Rightarrow> None
                    | Some (vs, r3) \<Rightarrow> Some (v # vs, r3))
                 else None)
          else None)"
| "parse_members s =
     (case s of
        [] \<Rightarrow> None
      | q # s1 \<Rightarrow>
          if q \<noteq> 34 then None
          else
            (case scanstring s1 of
               None \<Rightarrow> None
             | Some (key, r) \<Rightarrow>
                 if length r \<le> length s1 then
                   (case skip_ws r of
                      [] \<Rightarrow> None
                    | col # r2 \<Rightarrow>
                        if col \<noteq> 58 then None
                        else
                          (case parse_value (skip_ws r2) of
                             None \<Rightarrow> None
                           | Some (v, r4) \<Rightarrow>
                               if length r4 < length (skip_ws r2) then
                                 (case skip_ws r4 of
                                    [] \<Rightarrow> None
                                  | d # r6 \<Rightarrow>
                                      if d = 125 then Some ([(key, v)], r6)
                                      else if d = 44 then
                                        (case parse_members (skip_ws r6) of
                                           None \<Rightarrow> None
                                         | Some (kvs, r7) \<Rightarrow> Some ((key, v) # kvs, r7))
                                      else None)
                               else None))
                 else None))"
  by pat_completeness auto

termination
proof (relation "measure (\<lambda>x. case x of
          Inl s \<Rightarrow> 2 * length s
        | Inr (Inl s) \<Rightarrow> 2 * length s + 1
        | Inr (Inr s) \<Rightarrow> 2 * length s + 1)", goal_cases)
  case 1
  show ?case by simp
next
  case (2 c cs)
  have "length (skip_ws cs) \<le> length cs"
    by (simp add: skip_ws_def length_dropWhile_le)
  then show ?case by simp
next
  case (3 c cs)
  have "length (skip_ws cs) \<le> length cs"
    by (simp add: skip_ws_def length_dropWhile_le)
  then show ?case by simp
next
  case (4 s)
  show ?case by simp
next
  case (5 s x2 v r d r2)
  have "length (skip_ws r) \<le> length r" "length (skip_ws r2) \<le> length r2"
    by (simp_all add: skip_ws_def length_dropWhile_le)
  with 5 show ?case by simp
next
  case (6 s q s1 x2 key r col r2)
  have "length (skip_ws r) \<le> length r" "length (skip_ws r2) \<le> length r2"
    by (simp_all add: skip_ws_def length_dropWhile_le)
  with 6 show ?case by simp
next
  case (7 s q s1 x2 key r col r2 x2a v r4 d r6)
  have "length (skip_ws r) \<le> length r" "length (skip_ws r2) \<le> length r2"
    "length (skip_ws r4) \<le> length r4" "length (skip_ws r6) \<le> length r6"
    by (simp_all add: skip_ws_def length_dropWhile_le)
  with 7 show ?case by simp
qed

text \<open>\<^verbatim>\<open>json.loads(s)\<close>: \<open>None\<close> stands for \<^verbatim>\<open>json.JSONDecodeError\<close>. White space may
  stand around the value and nothing else may follow it.\<close>

definition json_loads :: "pystr \<Rightarrow> json option" where
  "json_loads s =
     (case parse_value (skip_ws s) of
        None \<Rightarrow> None
      | Some (v, r) \<Rightarrow> if skip_ws r = [] then Some v else None)"

text \<open>\<^verbatim>\<open>str(n)\<close> for an integer.\<close>

fun str_nat :: "nat \<Rightarrow> pystr" where
  "str_nat n = (if n < 10 then [48 + n] else str_nat (n div 10) @ [48 + n mod 10])"

definition str_int :: "int \<Rightarrow> pystr" where
  "str_int i = (if i < 0 then 45 # str_nat (nat (- i)) else str_nat (nat i))"

text \<open>
  \<^verbatim>\<open>json.dumps(obj, indent=ind)\<close>, with \<^verbatim>\<open>ensure_ascii\<close> at its default: the escapes
  of one code point of a string.
\<close>

definition hexdigit :: "nat \<Rightarrow> nat" where
  "hexdigit d = (if d < 10 then 48 + d else 87 + d)"

definition u_escape :: "nat \<Rightarrow> pystr" where
  "u_escape n =
     [92, 117, hexdigit (n div 4096 mod 16), hexdigit (n div 256 mod 16),
      hexdigit (n div 16 mod 16), hexdigit (n mod 16)]"

definition escape_char :: "nat \<Rightarrow> pystr" where
  "escape_char c =
     (if c = 34 then [92, 34]
      else if c = 92 then [92, 92]
      else if c = 10 then [92, 110]
      else if c = 13 then [92, 114]
      else if c = 9 then [92, 116]
      else if c = 12 then [92, 102]
      else if c = 8 then [92, 98]
      else if 32 \<le> c \<and> c \<le> 126 then [c]
      else if c < 65536 then u_escape c
      else u_escape (55296 + (c - 65536) div 1024 mod 1024) @
           u_escape (56320 + (c - 65536) mod 1024))"

definition encode_string :: "pystr \<Rightarrow> pystr" where
  "encode_string s = [34] @ concat (map escape_char s) @ [34]"

text \<open>The newline and the indentation of nesting level \<open>lvl\<close>.\<close>

definition newline_indent :: "nat \<Rightarrow> nat \<Rightarrow> pystr" where
  "newline_indent ind lvl = 10 # replicate (ind * lvl) 32"

text \<open>
  The encoder with an indent: the item separator is a comma and the key separator a
  colon and a space; an empty list and an empty dict are \<^verbatim>\<open>[]\<close> and \<^verbatim>\<open>{}\<close>. For a float
  Python prints the shortest representation of the double; the model prints the text
  the float was read from, and the patcher below does not use it on floats.
\<close>

fun dumps :: "nat \<Rightarrow> nat \<Rightarrow> json \<Rightarrow> pystr" where
  "dumps ind lvl JNull = str ''null''"
| "dumps ind lvl (JBool b) = (if b then str ''true'' else str ''false'')"
| "dumps ind lvl (JInt i) = str_int i"
| "dumps ind lvl (JFloat lit) = lit"
| "dumps ind lvl (JString s) = encode_string s"
| "dumps ind lvl (JArray xs) =
     (if xs = [] then str ''[]''
      else [91] @ newline_indent ind (Suc lvl) @
           join (44 # newline_indent ind (Suc lvl)) (map (dumps ind (Suc lvl)) xs) @
           newline_indent ind lvl @ [93])"
| "dumps ind lvl (JObject kvs) =
     (if kvs = [] then str ''{}''
      else [123] @ newline_indent ind (Suc lvl) @
           join (44 # newline_indent ind (Suc lvl))
             (map (\<lambda>kv. encode_string (fst kv) @ [58, 32] @ dumps ind (Suc lvl) (snd kv)) kvs) @
           newline_indent ind lvl @ [125])"

definition json_dumps :: "nat \<Rightarrow> json \<Rightarrow> pystr" where
  "json_dumps ind j = dumps ind 0 j"

text \<open>Does a value hold a float anywhere.\<close>

fun has_float :: "json \<Rightarrow> bool" where
  "has_float (JFloat lit) = True"
| "has_float (JArray xs) = (\<exists>x\<in>set xs. has_float x)"
| "has_float (JObject kvs) = (\<exists>kv\<in>set kvs. has_float (snd kv))"
| "has_float _ = False"

section \<open>The operating system, and effects\<close>

text \<open>The \<^verbatim>\<open>subprocess.CompletedProcess\<close> of a finished command.\<close>

record completed =
  returncode :: int
  stdout :: pystr
  stderr :: pystr

text \<open>
  The exceptions. \<^verbatim>\<open>subprocess.CalledProcessError\<close> has the attributes
  \<^verbatim>\<open>returncode\<close>, \<^verbatim>\<open>cmd\<close>, \<^verbatim>\<open>stdout\<close> and \<^verbatim>\<open>stderr\<close>. \<open>OSError\<close> is what
  \<^verbatim>\<open>subprocess.run\<close> raises when the command cannot be started. \<open>Unmodelled\<close> marks
  the two places where Python's behaviour is outside this model: \<^verbatim>\<open>json.dumps\<close> of a
  float, and \<^verbatim>\<open>re.sub\<close> with a replacement that holds a backslash, which \<^verbatim>\<open>re\<close> reads
  as a template.
\<close>

datatype exn =
    CalledProcessError int "pystr list" pystr pystr
  | OSError pystr
  | FileNotFoundError pystr
  | RuntimeError pystr
  | JSONDecodeError
  | AttributeError
  | TypeError
  | SystemExit int
  | Unmodelled

text \<open>The effects a run leaves outside the process: a command that was started, with
  its working directory and its piped input, and a file that was written.\<close>

datatype event =
    Spawn "pystr list" "pystr option" "pystr option"
  | Write pystr pystr

text \<open>
  The state: the text files by path, as \<^verbatim>\<open>read_text\<close> returns and \<^verbatim>\<open>write_text\<close>
  takes them (the encoding and the newline translation of text-mode I/O are below this
  model); everything else the external commands see and change (\<open>ext\<close>: the
  repositories' history, the remotes, the hosting service); the environment variables;
  the working directory of the process; what was written to \<^verbatim>\<open>sys.stderr\<close> and
  \<^verbatim>\<open>sys.stdout\<close>; and the effects so far.
\<close>

record 'x world =
  files :: "pystr \<rightharpoonup> pystr"
  ext :: 'x
  environ :: "pystr \<rightharpoonup> pystr"
  getcwd :: pystr
  sys_stderr :: pystr
  sys_stdout :: pystr
  trace :: "event list"

text \<open>
  What an external command does is a parameter: from the command, its working
  directory, its piped input, the files and the external state to either the failure
  to start or the completed process, and the files and the external state it leaves.
\<close>

type_synonym 'x exec =
  "pystr list \<Rightarrow> pystr option \<Rightarrow> pystr option \<Rightarrow> (pystr \<rightharpoonup> pystr) \<times> 'x \<Rightarrow>
     (pystr + completed) \<times> ((pystr \<rightharpoonup> pystr) \<times> 'x)"

text \<open>A computation with effects: it ends in an exception or a value.\<close>

type_synonym ('x, 'a) io = "'x world \<Rightarrow> (exn + 'a) \<times> 'x world"

definition io_return :: "'a \<Rightarrow> ('x, 'a) io" where
  "io_return a w = (Inr a, w)"

definition io_raise :: "exn \<Rightarrow> ('x, 'a) io" where
  "io_raise e w = (Inl e, w)"

definition io_bind :: "('x, 'a) io \<Rightarrow> ('a \<Rightarrow> ('x, 'b) io) \<Rightarrow> ('x, 'b) io" where
  "io_bind m f w =
     (case m w of
        (Inl e, w') \<Rightarrow> (Inl e, w')
      | (Inr a, w') \<Rightarrow> f a w')"

text \<open>\<^verbatim>\<open>Path.exists\<close>, \<^verbatim>\<open>Path.read_text\<close>, \<^verbatim>\<open>Path.write_text\<close> and the \<^verbatim>\<open>/\<close> of
  \<^verbatim>\<open>pathlib\<close> on a resolved path.\<close>

definition path_exists :: "pystr \<Rightarrow> 'x world \<Rightarrow> bool" where
  "path_exists p w \<longleftrightarrow> files w p \<noteq> None"

definition read_text :: "pystr \<Rightarrow> ('x, pystr) io" where
  "read_text p w =
     (case files w p of
        None \<Rightarrow> (Inl (FileNotFoundError p), w)
      | Some t \<Rightarrow> (Inr t, w))"

definition write_text :: "pystr \<Rightarrow> pystr \<Rightarrow> ('x, unit) io" where
  "write_text p t w = (Inr (), w\<lparr>files := (files w)(p \<mapsto> t), trace := trace w @ [Write p t]\<rparr>)"

definition path_join :: "pystr \<Rightarrow> pystr \<Rightarrow> pystr" where
  "path_join p q = (if p \<noteq> [] \<and> last p = 47 then p @ q else p @ [47] @ q)"

section \<open>The command runner\<close>

text \<open>The block that \<^verbatim>\<open>run\<close> writes to \<^verbatim>\<open>sys.stderr\<close> for a failed command.\<close>

definition diagnostic :: "pystr \<Rightarrow> pystr list \<Rightarrow> int \<Rightarrow> pystr \<Rightarrow> pystr \<Rightarrow> pystr" where
  "diagnostic cwd_str cmd code out err =
     join [10]
       [str ''[run] Command failed'',
        str ''[run] cwd: '' @ cwd_str,
        str ''[run] cmd: '' @ join (str '' '') cmd,
        str ''[run] exit_code: '' @ str_int code,
        str ''[run] --- stdout ---'',
        out,
        str ''[run] --- stderr ---'',
        err,
        str ''[run] ---------------''] @ [10]"

text \<open>
  \<^verbatim>\<open>run(cmd, cwd, check, input_str)\<close>; no caller passes \<^verbatim>\<open>env\<close>. With \<^verbatim>\<open>check\<close>, a
  nonzero exit code makes \<^verbatim>\<open>subprocess.run\<close> raise \<^verbatim>\<open>CalledProcessError\<close>, which the
  handler reports and raises again; any other exception passes through.
\<close>

definition run :: "'x exec \<Rightarrow> pystr list \<Rightarrow> pystr option \<Rightarrow> bool \<Rightarrow> pystr option \<Rightarrow> ('x, completed) io" where
  "run ex cmd cwd check input_str w =
     (case ex cmd cwd input_str (files w, ext w) of
        (r, (fs', x')) \<Rightarrow>
          let w1 = w\<lparr>files := fs', ext := x', trace := trace w @ [Spawn cmd cwd input_str]\<rparr>
          in case r of
               Inl msg \<Rightarrow> (Inl (OSError msg), w1)
             | Inr p \<Rightarrow>
                 if check \<and> returncode p \<noteq> 0 then
                   (Inl (CalledProcessError (returncode p) cmd (stdout p) (stderr p)),
                    w1\<lparr>sys_stderr := sys_stderr w1 @
                       diagnostic (case cwd of Some d \<Rightarrow> d | None \<Rightarrow> getcwd w1) cmd
                         (returncode p) (stdout p) (stderr p)\<rparr>)
                 else (Inr p, w1))"

section \<open>The bidder list parser\<close>

text \<open>The elements of \<^verbatim>\<open>for b in json.loads(s)\<close>.\<close>

fun py_iter :: "json \<Rightarrow> exn + json list" where
  "py_iter (JArray xs) = Inr xs"
| "py_iter (JObject kvs) = Inr (map (\<lambda>kv. JString (fst kv)) kvs)"
| "py_iter (JString s) = Inr (map (\<lambda>c. JString [c]) s)"
| "py_iter _ = Inl TypeError"

text \<open>\<^verbatim>\<open>b.strip().strip('"\'')\<close>: only a string has \<^verbatim>\<open>strip\<close>.\<close>

fun bidder_of :: "json \<Rightarrow> exn + pystr" where
  "bidder_of (JString b) = Inr (strip_chars [34, 39] (strip b))"
| "bidder_of _ = Inl AttributeError"

fun collect :: "('a \<Rightarrow> exn + 'b) \<Rightarrow> 'a list \<Rightarrow> exn + 'b list" where
  "collect f [] = Inr []"
| "collect f (x # xs) =
     (case f x of
        Inl e \<Rightarrow> Inl e
      | Inr y \<Rightarrow> (case collect f xs of Inl e \<Rightarrow> Inl e | Inr ys \<Rightarrow> Inr (y # ys)))"

definition parse_bidders :: "pystr \<Rightarrow> exn + pystr list" where
  "parse_bidders raw =
     (let s = strip raw
      in if s = [] then Inr []
         else if hd s = 91 then
           (case json_loads s of
              None \<Rightarrow> Inl JSONDecodeError
            | Some data \<Rightarrow>
                (case py_iter data of
                   Inl e \<Rightarrow> Inl e
                 | Inr xs \<Rightarrow> collect bidder_of xs))
         else Inr (filter (\<lambda>b. b \<noteq> []) (map strip (split_on 44 s))))"

section \<open>The JSON array patcher\<close>

definition ensure_line_in_json_array :: "pystr \<Rightarrow> pystr \<Rightarrow> ('x, bool) io" where
  "ensure_line_in_json_array file_path val =
     io_bind (read_text file_path) (\<lambda>text.
       case json_loads text of
         Some data \<Rightarrow>
           (case data of
              JArray xs \<Rightarrow>
                if JString val \<in> set xs then io_return False
                else if has_float data then io_raise Unmodelled
                else io_bind (write_text file_path
                                (json_dumps 4 (JArray (xs @ [JString val])) @ [10]))
                       (\<lambda>_. io_return True)
            | JObject kvs \<Rightarrow>
                if val \<in> fst ` set kvs then io_return False else io_raise AttributeError
            | JString t \<Rightarrow>
                if find_lit val t \<noteq> None then io_return False else io_raise AttributeError
            | _ \<Rightarrow> io_raise TypeError)
       | None \<Rightarrow>
           if search_quoted val text then io_return False
           else if 92 \<in> set val then io_raise Unmodelled
           else io_bind (write_text file_path
                           (sub_bracket (str ''    '' @ [34] @ val @ [34, 10, 93]) text))
                  (\<lambda>_. io_return True))"

text \<open>The loop \<^verbatim>\<open>for bidder in bidders: changed |= ensure_line_in_json_array(...)\<close>.\<close>

fun update_loop :: "pystr \<Rightarrow> pystr list \<Rightarrow> bool \<Rightarrow> ('x, bool) io" where
  "update_loop modules_file [] changed = io_return changed"
| "update_loop modules_file (bidder # rest) changed =
     io_bind (ensure_line_in_json_array modules_file (bidder @ str ''BidAdapter''))
       (\<lambda>c. update_loop modules_file rest (changed \<or> c))"

definition update_prebid_modules :: "pystr \<Rightarrow> pystr list \<Rightarrow> ('x, bool) io" where
  "update_prebid_modules prebid_repo bidders w =
     (let modules_file = path_join prebid_repo (str ''modules.json'')
      in if \<not> path_exists modules_file w
         then (Inl (FileNotFoundError (str ''Missing Prebid modules.json at '' @ modules_file)), w)
         else update_loop modules_file bidders False w)"

section \<open>The submodule sync\<close>

definition sync_pubfig_submodule_to_prebid_sha ::
  "'x exec \<Rightarrow> pystr \<Rightarrow> pystr \<Rightarrow> pystr \<Rightarrow> ('x, bool) io" where
  "sync_pubfig_submodule_to_prebid_sha ex pubfig_repo submodule_path target_sha w =
     (let gitmodules = path_join pubfig_repo (str ''.gitmodules'')
      in if \<not> path_exists gitmodules w then (Inr False, w)
         else
           io_bind (run ex [str ''git'', str ''submodule'', str ''update'', str ''--init'', submodule_path]
                      (Some pubfig_repo) True None) (\<lambda>_.
           io_bind (run ex [str ''git'', str ''-C'', submodule_path, str ''fetch'', str ''--all'']
                      (Some pubfig_repo) True None) (\<lambda>_.
           io_bind (run ex [str ''git'', str ''-C'', submodule_path, str ''checkout'', target_sha]
                      (Some pubfig_repo) True None) (\<lambda>_.
           io_bind (run ex [str ''git'', str ''add'', submodule_path]
                      (Some pubfig_repo) True None) (\<lambda>_.
           io_bind (run ex [str ''git'', str ''status'', str ''--porcelain'']
                      (Some pubfig_repo) True None) (\<lambda>p.
           io_return (strip (stdout p) \<noteq> [])))))) w)"

section \<open>The source array patcher\<close>

definition helper_path :: pystr where
  "helper_path =
     str ''src/main/java/io/freestar/admanagement/deployments/utils/PrebidModulesHelper.java''"

definition update_ams_helper :: "pystr \<Rightarrow> pystr list \<Rightarrow> ('x, bool) io" where
  "update_ams_helper ams_repo bidders w =
     (let helper = path_join ams_repo helper_path
      in if \<not> path_exists helper w
         then (Inl (FileNotFoundError (str ''Missing PrebidModulesHelper.java at '' @ helper)), w)
         else
           io_bind (read_text helper) (\<lambda>text.
             case find_lit start_pat text of
               None \<Rightarrow> io_raise (RuntimeError
                 (str ''Could not locate NETWORK_SLUGS_WITH_BID_ADAPTERS declaration''))
             | Some m_start \<Rightarrow>
                 let start_idx = m_start + length start_pat;
                     tail = drop start_idx text
                 in case find_lit end_pat tail of
                      None \<Rightarrow> io_raise (RuntimeError
                        (str ''Could not locate end of NETWORK_SLUGS_WITH_BID_ADAPTERS''))
                    | Some end_rel \<Rightarrow>
                        let end_idx = start_idx + end_rel;
                            array_body = take end_rel tail;
                            existing = findall_quoted array_body;
                            new_items = filter (\<lambda>b. b \<notin> set existing) bidders
                        in if new_items = [] then io_return False
                           else
                             let combined = existing @ new_items;
                                 new_text = take start_idx text @ new_body_of combined @
                                            drop end_idx text
                             in io_bind (write_text helper new_text) (\<lambda>_. io_return True)) w)"

section \<open>Branches, commits and pull requests\<close>

text \<open>\<^verbatim>\<open>os.environ.get("GH_TOKEN") or os.environ.get("GITHUB_TOKEN")\<close>.\<close>

definition token_from_env :: "'x world \<Rightarrow> pystr option" where
  "token_from_env w =
     (case environ w (str ''GH_TOKEN'') of
        Some t \<Rightarrow> if t \<noteq> [] then Some t else environ w (str ''GITHUB_TOKEN'')
      | None \<Rightarrow> environ w (str ''GITHUB_TOKEN''))"

definition gh_login_from_env :: "'x exec \<Rightarrow> ('x, unit) io" where
  "gh_login_from_env ex w =
     (case token_from_env w of
        None \<Rightarrow> (Inr (), w)
      | Some token \<Rightarrow>
          if token = [] then (Inr (), w)
          else
            (case run ex [str ''gh'', str ''auth'', str ''status''] None True None w of
               (Inr _, w1) \<Rightarrow> (Inr (), w1)
             | (Inl (CalledProcessError _ _ _ _), w1) \<Rightarrow>
                 io_bind (run ex [str ''gh'', str ''auth'', str ''login'', str ''--with-token'']
                            None True (Some token))
                   (\<lambda>_. io_return ()) w1
             | (Inl e, w1) \<Rightarrow> (Inl e, w1)))"

definition git_prepare_branch :: "'x exec \<Rightarrow> pystr \<Rightarrow> pystr \<Rightarrow> pystr \<Rightarrow> ('x, unit) io" where
  "git_prepare_branch ex repo base_branch new_branch =
     io_bind (run ex [str ''git'', str ''fetch'', str ''origin''] (Some repo) True None) (\<lambda>_.
     io_bind (run ex [str ''git'', str ''checkout'', base_branch] (Some repo) True None) (\<lambda>_.
     io_bind (run ex [str ''git'', str ''pull'', str ''--ff-only'', str ''origin'', base_branch]
                (Some repo) True None) (\<lambda>_.
     io_bind (run ex [str ''git'', str ''checkout'', str ''-B'', new_branch] (Some repo) True None)
       (\<lambda>_. io_return ()))))"

definition git_commit_push :: "'x exec \<Rightarrow> pystr \<Rightarrow> pystr \<Rightarrow> pystr \<Rightarrow> ('x, bool) io" where
  "git_commit_push ex repo branch title =
     io_bind (run ex [str ''git'', str ''status'', str ''--porcelain''] (Some repo) True None) (\<lambda>p.
       if strip (stdout p) = [] then io_return False
       else
         io_bind (run ex [str ''git'', str ''add'', str ''-A''] (Some repo) True None) (\<lambda>_.
         io_bind (run ex [str ''git'', str ''commit'', str ''-m'', title] (Some repo) True None) (\<lambda>_.
         io_bind (run ex [str ''git'', str ''push'', str ''-u'', str ''origin'', branch]
                    (Some repo) True None) (\<lambda>_.
         io_return True))))"

definition gh_open_pr :: "'x exec \<Rightarrow> pystr \<Rightarrow> pystr \<Rightarrow> pystr \<Rightarrow> pystr \<Rightarrow> pystr \<Rightarrow> ('x, pystr) io" where
  "gh_open_pr ex repo title body base_branch head_branch =
     io_bind (run ex [str ''gh'', str ''pr'', str ''create'', str ''--title'', title, str ''--body'', body,
                      str ''--base'', base_branch, str ''--head'', head_branch]
                (Some repo) True None) (\<lambda>_.
     io_bind (run ex [str ''gh'', str ''pr'', str ''view'', str ''--json'', str ''url'', str ''--jq'', str ''.url'']
                (Some repo) True None) (\<lambda>p.
     io_return (strip (stdout p))))"

section \<open>The orchestrator\<close>

text \<open>The command line after \<^verbatim>\<open>argparse\<close>; the three repository paths are taken as
  resolved.\<close>

record args =
  arg_bidders :: pystr
  arg_prebid_repo :: pystr
  arg_pubfig_repo :: pystr
  arg_ams_repo :: pystr
  arg_base_branch :: pystr

text \<open>\<^verbatim>\<open>suffix = "-".join(sorted(set(bidders)))\<close> and
  \<^verbatim>\<open>branch_name = f"chore/add-bidders-{suffix}"\<close>; Python orders strings by code point,
  lexicographically.\<close>

definition branch_name_of :: "pystr list \<Rightarrow> pystr" where
  "branch_name_of bidders =
     str ''chore/add-bidders-'' @ join (str ''-'') (sorted_list_of_set (set bidders))"

definition prebid_title :: "pystr list \<Rightarrow> pystr" where
  "prebid_title bidders =
     str ''chore: add bidders '' @ join (str '', '') bidders @ str '' to Prebid modules.json''"

definition pubfig_title :: "pystr \<Rightarrow> pystr" where
  "pubfig_title prebid_sha = str ''chore: sync pbjs-poc submodule to '' @ take 7 prebid_sha"

definition ams_title :: "pystr list \<Rightarrow> pystr" where
  "ams_title bidders =
     str ''chore: add bidders '' @ join (str '', '') bidders @ str '' to PrebidModulesHelper''"

definition prebid_body :: pystr where
  "prebid_body = str ''Automated POC change to include new bidders in Prebid build modules.''"

definition pubfig_body :: pystr where
  "pubfig_body =
     str ''Automated POC change to sync Prebid submodule to latest modules.json changes.''"

definition ams_body :: pystr where
  "ams_body = str ''Automated POC change to include new bidder slugs in AMS helper.''"

text \<open>\<^verbatim>\<open>gh_open_pr(...) if git_commit_push(...) else ""\<close>.\<close>

definition commit_and_pr ::
  "'x exec \<Rightarrow> pystr \<Rightarrow> pystr \<Rightarrow> pystr \<Rightarrow> pystr \<Rightarrow> pystr \<Rightarrow> ('x, pystr) io" where
  "commit_and_pr ex repo branch_name title body base_branch =
     io_bind (git_commit_push ex repo branch_name title) (\<lambda>pushed.
       if pushed then gh_open_pr ex repo title body base_branch branch_name
       else io_return [])"

definition results_json :: "bool \<Rightarrow> pystr \<Rightarrow> bool \<Rightarrow> pystr \<Rightarrow> pystr \<Rightarrow> bool \<Rightarrow> pystr \<Rightarrow> json" where
  "results_json prebid_changed pr1 sub_changed pr2 prebid_sha ams_changed pr3 =
     JObject
       [(str ''prebid-poc'', JObject [(str ''changed'', JBool prebid_changed), (str ''pr'', JString pr1)]),
        (str ''pubfig-poc'',
           JObject [(str ''changed'', JBool sub_changed), (str ''pr'', JString pr2),
                    (str ''prebid_sha'', JString prebid_sha)]),
        (str ''ad-management-service-poc'',
           JObject [(str ''changed'', JBool ams_changed), (str ''pr'', JString pr3)])]"

definition print_stdout :: "pystr \<Rightarrow> ('x, unit) io" where
  "print_stdout t w = (Inr (), w\<lparr>sys_stdout := sys_stdout w @ t @ [10]\<rparr>)"

definition main :: "'x exec \<Rightarrow> args \<Rightarrow> ('x, unit) io" where
  "main ex a =
     (case parse_bidders (arg_bidders a) of
        Inl e \<Rightarrow> io_raise e
      | Inr bidders \<Rightarrow>
          if bidders = [] then
            (\<lambda>w. (Inl (SystemExit 1),
                  w\<lparr>sys_stderr := sys_stderr w @ str ''No bidders provided'' @ [10]\<rparr>))
          else
            let prebid_repo = arg_prebid_repo a;
                pubfig_repo = arg_pubfig_repo a;
                ams_repo = arg_ams_repo a;
                base = arg_base_branch a
            in
            io_bind (gh_login_from_env ex) (\<lambda>_.
            io_bind (update_prebid_modules prebid_repo bidders) (\<lambda>prebid_changed.
            io_bind (update_ams_helper ams_repo bidders) (\<lambda>ams_changed.
            let branch_name = branch_name_of bidders
            in
            io_bind (git_prepare_branch ex prebid_repo base branch_name) (\<lambda>_.
            io_bind (commit_and_pr ex prebid_repo branch_name (prebid_title bidders)
                       prebid_body base) (\<lambda>pr1.
            io_bind (run ex [str ''git'', str ''rev-parse'', str ''HEAD''] (Some prebid_repo)
                       True None) (\<lambda>p.
            let prebid_sha = strip (stdout p)
            in
            io_bind (git_prepare_branch ex pubfig_repo base branch_name) (\<lambda>_.
            io_bind (sync_pubfig_submodule_to_prebid_sha ex pubfig_repo (str ''pbjs-poc'')
                       prebid_sha) (\<lambda>sub_changed.
            io_bind (commit_and_pr ex pubfig_repo branch_name (pubfig_title prebid_sha)
                       pubfig_body base) (\<lambda>pr2.
            io_bind (git_prepare_branch ex ams_repo base branch_name) (\<lambda>_.
            io_bind (commit_and_pr ex ams_repo branch_name (ams_title bidders)
                       ams_body base) (\<lambda>pr3.
            print_stdout (json_dumps 2
              (results_json prebid_changed pr1 sub_changed pr2 prebid_sha
                 ams_changed pr3))))))))))))))"

section \<open>Example inputs\<close>

text \<open>External commands that all succeed with empty output, and that all fail with
  exit code 1; a world without files.\<close>

definition ok_exec :: "unit exec" where
  "ok_exec cmd cwd input_str st = (Inr \<lparr>returncode = 0, stdout = [], stderr = []\<rparr>, st)"

definition fail_exec :: "unit exec" where
  "fail_exec cmd cwd input_str st =
     (Inr \<lparr>returncode = 1, stdout = str ''out'', stderr = str ''err''\<rparr>, st)"

definition world0 :: "unit world" where
  "world0 = \<lparr>files = Map.empty, ext = (), environ = Map.empty, getcwd = str ''/work'',
             sys_stderr = [], sys_stdout = [], trace = []\<rparr>"

text \<open>One bidder, and a world whose manifest holds one adapter and whose helper holds
  one slug.\<close>

definition args1 :: args where
  "args1 = \<lparr>arg_bidders = str ''kargo'', arg_prebid_repo = str ''/prebid'',
            arg_pubfig_repo = str ''/pubfig'', arg_ams_repo = str ''/ams'',
            arg_base_branch = str ''main''\<rparr>"

definition world1 :: "unit world" where
  "world1 = world0\<lparr>files :=
     [str ''/prebid/modules.json'' \<mapsto> str ''[\"fooBidAdapter\"]'',
      path_join (str ''/ams'') helper_path \<mapsto> start_pat @ str ''\"alpha\"};'']\<rparr>"

text \<open>A world whose helper file holds the array with the one element \<^verbatim>\<open>alpha\<close>.\<close>

definition world2 :: "unit world" where
  "world2 = world0\<lparr>files :=
     [path_join (str ''/ams'') helper_path \<mapsto>
        str ''class H { '' @ start_pat @ str '' \"alpha\" }; }'']\<rparr>"

section \<open>Notions used in the statements and proofs\<close>

text \<open>The commands of \<^verbatim>\<open>git_prepare_branch\<close>: fetch, checkout of the base branch,
  fast-forward pull, create-or-reset of the new branch.\<close>

definition prepare_events :: "pystr \<Rightarrow> pystr \<Rightarrow> pystr \<Rightarrow> event list" where
  "prepare_events repo base_branch new_branch =
     [Spawn [str ''git'', str ''fetch'', str ''origin''] (Some repo) None,
      Spawn [str ''git'', str ''checkout'', base_branch] (Some repo) None,
      Spawn [str ''git'', str ''pull'', str ''--ff-only'', str ''origin'', base_branch] (Some repo) None,
      Spawn [str ''git'', str ''checkout'', str ''-B'', new_branch] (Some repo) None]"

text \<open>The dirty check and, for a dirty tree, commit, push and the pull request.\<close>

definition publish_events :: "pystr \<Rightarrow> pystr \<Rightarrow> pystr \<Rightarrow> pystr \<Rightarrow> pystr \<Rightarrow> bool \<Rightarrow> event list" where
  "publish_events repo branch title body base_branch dirty =
     Spawn [str ''git'', str ''status'', str ''--porcelain''] (Some repo) None #
     (if dirty then
        [Spawn [str ''git'', str ''add'', str ''-A''] (Some repo) None,
         Spawn [str ''git'', str ''commit'', str ''-m'', title] (Some repo) None,
         Spawn [str ''git'', str ''push'', str ''-u'', str ''origin'', branch] (Some repo) None,
         Spawn [str ''gh'', str ''pr'', str ''create'', str ''--title'', title, str ''--body'', body,
                str ''--base'', base_branch, str ''--head'', branch] (Some repo) None,
         Spawn [str ''gh'', str ''pr'', str ''view'', str ''--json'', str ''url'', str ''--jq'', str ''.url'']
           (Some repo) None]
      else [])"

text \<open>The commands of the submodule sync.\<close>

definition sync_events :: "pystr \<Rightarrow> pystr \<Rightarrow> pystr \<Rightarrow> event list" where
  "sync_events repo submodule_path target_sha =
     [Spawn [str ''git'', str ''submodule'', str ''update'', str ''--init'', submodule_path] (Some repo) None,
      Spawn [str ''git'', str ''-C'', submodule_path, str ''fetch'', str ''--all''] (Some repo) None,
      Spawn [str ''git'', str ''-C'', submodule_path, str ''checkout'', target_sha] (Some repo) None,
      Spawn [str ''git'', str ''add'', submodule_path] (Some repo) None,
      Spawn [str ''git'', str ''status'', str ''--porcelain''] (Some repo) None]"

text \<open>
  The array of the helper file as \<^verbatim>\<open>update_ams_helper\<close> reads it: the index after the
  first start marker and the index of the first terminator after it, and the quoted
  elements between the two.
\<close>

definition locate :: "pystr \<Rightarrow> (nat \<times> nat) option" where
  "locate text =
     (case find_lit start_pat text of
        None \<Rightarrow> None
      | Some m \<Rightarrow>
          (case find_lit end_pat (drop (m + length start_pat) text) of
             None \<Rightarrow> None
           | Some k \<Rightarrow> Some (m + length start_pat, m + length start_pat + k)))"


text \<open>A text that the search for quoted elements leaves at a clean position, having
  found the elements \<open>xs\<close> in it whatever follows; the text of finished lines; and the
  invariant of the packing loop for the elements it has placed.\<close>

definition closed_text :: "pystr \<Rightarrow> pystr list \<Rightarrow> bool" where
  "closed_text s xs \<longleftrightarrow> (\<forall>r. findall_quoted (s @ r) = xs @ findall_quoted r)"

definition lines_text :: "pystr list \<Rightarrow> pystr" where
  "lines_text ls = concat (map (\<lambda>l. l @ [10]) ls)"

definition pack_sem :: "pystr list \<Rightarrow> pystr list \<times> pystr \<Rightarrow> bool" where
  "pack_sem done st \<longleftrightarrow>
     (\<exists>A B. done = A @ B \<and> closed_text (lines_text (fst st)) A \<and>
        ((snd st = indent \<and> B = []) \<or>
         (\<exists>c. snd st = c @ [32] \<and> c \<noteq> [] \<and> \<not> py_isspace (last c) \<and> closed_text c B)))"

text \<open>The command that creates or resets branch \<open>b\<close> in a repository.\<close>

definition checkout_B :: "pystr \<Rightarrow> pystr \<Rightarrow> event" where
  "checkout_B repo b = Spawn [str ''git'', str ''checkout'', str ''-B'', b] (Some repo) None"

text \<open>Effects that are all writes of one file, and effects that are all \<^verbatim>\<open>gh auth\<close>
  commands.\<close>

definition writes_to :: "pystr \<Rightarrow> event list \<Rightarrow> bool" where
  "writes_to p evs \<longleftrightarrow> (\<forall>e\<in>set evs. \<exists>t. e = Write p t)"

definition login_events :: "event list \<Rightarrow> bool" where
  "login_events evs \<longleftrightarrow>
     (\<forall>e\<in>set evs. \<exists>rest inp. e = Spawn (str ''gh'' # str ''auth'' # rest) None inp)"

text \<open>A line is within the width, or it is the indent followed by one token that
  does not fit behind the indent.\<close>

definition line_ok :: "pystr set \<Rightarrow> pystr \<Rightarrow> bool" where
  "line_ok T l \<longleftrightarrow> length l \<le> 100 \<or> (\<exists>t\<in>T. l = indent @ t \<and> 97 < length t)"

definition pack_inv :: "pystr set \<Rightarrow> pystr list \<times> pystr \<Rightarrow> bool" where
  "pack_inv T st \<longleftrightarrow>
     (\<forall>l\<in>set (fst st). line_ok T l) \<and>
     (snd st = indent \<or>
      (\<exists>c. snd st = c @ [32] \<and> c \<noteq> [] \<and> \<not> py_isspace (last c) \<and> line_ok T c))"

section \<open>Notions and example files for the JSON array patcher\<close>



text \<open>Every object holds each key once, as a Python \<^verbatim>\<open>dict\<close> does.\<close>

fun keys_distinct :: "json \<Rightarrow> bool" where
  "keys_distinct (JArray xs) = (\<forall>x\<in>set xs. keys_distinct x)"
| "keys_distinct (JObject kvs) =
     (distinct (map fst kvs) \<and> (\<forall>kv\<in>set kvs. keys_distinct (snd kv)))"
| "keys_distinct _ = True"













section \<open>Properties of the line packing\<close>

lemma py_isspace_32: "py_isspace 32"
  by (simp add: py_isspace_def)

lemma rstrip_snoc_space:
  assumes "c \<noteq> []" and "\<not> py_isspace (last c)"
  shows "rstrip (c @ [32]) = c"
proof -
  from assms(1) obtain ys y where c: "c = ys @ [y]"
    by (cases c rule: rev_cases) auto
  with assms(2) have "\<not> py_isspace y" by simp
  then show ?thesis
    by (simp add: rstrip_def py_isspace_32 c)
qed

lemma rstrip_indent: "rstrip indent = []"
  by (simp add: rstrip_def indent_def py_isspace_def)

lemma token_of_last: "\<not> py_isspace (last (token_of n i item))"
  by (simp add: token_of_def py_isspace_def Let_def)

lemma token_of_nonempty: "token_of n i item \<noteq> []"
  by (simp add: token_of_def Let_def)

lemma pack_inv_rstrip:
  assumes "pack_inv T (lines, current)"
  shows "line_ok T (rstrip current)"
proof (cases "current = indent")
  case True
  then show ?thesis by (simp add: rstrip_indent line_ok_def)
next
  case False
  with assms obtain c where "current = c @ [32]" "c \<noteq> []" "\<not> py_isspace (last c)" "line_ok T c"
    by (auto simp: pack_inv_def)
  then show ?thesis by (simp add: rstrip_snoc_space)
qed

lemma pack_loop_inv:
  assumes "\<forall>j<length rest. token_of n (i + j) (rest ! j) \<in> T"
    and "pack_inv T (lines, current)"
  shows "pack_inv T (pack_loop n i rest (lines, current))"
  using assms
proof (induction rest arbitrary: i lines current)
  case Nil
  then show ?case by simp
next
  case (Cons item rest)
  let ?t = "token_of n i item"
  have tT: "?t \<in> T"
    using Cons.prems(1) by force
  have rest: "\<forall>j<length rest. token_of n (Suc i + j) (rest ! j) \<in> T"
    using Cons.prems(1) by force
  show ?case
  proof (cases "length current + length ?t > 100")
    case True
    have l: "line_ok T (rstrip current)"
      using Cons.prems(2) by (rule pack_inv_rstrip)
    have c: "line_ok T (indent @ ?t)"
    proof (cases "length ?t > 97")
      case True
      then show ?thesis using tT by (auto simp: line_ok_def)
    next
      case False
      then show ?thesis by (simp add: line_ok_def indent_def)
    qed
    have "pack_inv T (lines @ [rstrip current], indent @ ?t @ [32])"
      unfolding pack_inv_def
    proof (intro conjI)
      show "\<forall>l\<in>set (fst (lines @ [rstrip current], indent @ ?t @ [32])). line_ok T l"
        using Cons.prems(2) l by (auto simp: pack_inv_def)
      have "indent @ ?t @ [32] = (indent @ ?t) @ [32]" by simp
      moreover have "indent @ ?t \<noteq> []" by (simp add: indent_def)
      moreover have "\<not> py_isspace (last (indent @ ?t))"
        using token_of_last [of n i item] token_of_nonempty [of n i item] by simp
      ultimately show "snd (lines @ [rstrip current], indent @ ?t @ [32]) = indent \<or>
        (\<exists>c. snd (lines @ [rstrip current], indent @ ?t @ [32]) = c @ [32] \<and> c \<noteq> [] \<and>
             \<not> py_isspace (last c) \<and> line_ok T c)"
        using c by auto
    qed
    from Cons.IH [OF rest this] True show ?thesis
      by (simp add: Let_def)
  next
    case False
    have "pack_inv T (lines, current @ ?t @ [32])"
      unfolding pack_inv_def
    proof (intro conjI)
      show "\<forall>l\<in>set (fst (lines, current @ ?t @ [32])). line_ok T l"
        using Cons.prems(2) by (auto simp: pack_inv_def)
      have "current @ ?t @ [32] = (current @ ?t) @ [32]" by simp
      moreover have "current @ ?t \<noteq> []"
        using token_of_nonempty [of n i item] by simp
      moreover have "\<not> py_isspace (last (current @ ?t))"
        using token_of_last [of n i item] token_of_nonempty [of n i item] by simp
      moreover have "line_ok T (current @ ?t)"
        using False by (simp add: line_ok_def)
      ultimately show "snd (lines, current @ ?t @ [32]) = indent \<or>
        (\<exists>c. snd (lines, current @ ?t @ [32]) = c @ [32] \<and> c \<noteq> [] \<and>
             \<not> py_isspace (last c) \<and> line_ok T c)"
        by auto
    qed
    from Cons.IH [OF rest this] False show ?thesis
      by (simp add: Let_def)
  qed
qed

lemma pack_lines_ok:
  assumes "\<forall>j<length combined. token_of (length combined) j (combined ! j) \<in> T"
    and "l \<in> set (pack_lines combined)"
  shows "line_ok T l"
proof -
  obtain lines current
    where st: "pack_loop (length combined) 0 combined ([], indent) = (lines, current)"
    by (cases "pack_loop (length combined) 0 combined ([], indent)")
  have "pack_inv T ([], indent)"
    by (simp add: pack_inv_def)
  with assms(1) have inv: "pack_inv T (lines, current)"
    using pack_loop_inv [of combined "length combined" 0 T "[]" indent] st by simp
  then have "line_ok T (rstrip current)"
    by (rule pack_inv_rstrip)
  moreover have "\<forall>l\<in>set lines. line_ok T l"
    using inv by (simp add: pack_inv_def)
  ultimately show ?thesis
    using assms(2) st by (auto simp: pack_lines_def split: if_splits)
qed

text \<open>
  Claim C4, as the code has it. Every line that the packing step of
  \<^verbatim>\<open>update_ams_helper\<close> produces is at most 100 characters long, except a line that
  holds a single token behind the three-tab indent when that token is longer than 97
  characters, that is, when the indent and the token together exceed 100.
\<close>

theorem pack_lines_width:
  "\<forall>l\<in>set (pack_lines combined).
     length l \<le> 100 \<or>
     (\<exists>i<length combined.
        l = indent @ token_of (length combined) i (combined ! i) \<and>
        97 < length (token_of (length combined) i (combined ! i)))"
proof
  fix l
  assume l: "l \<in> set (pack_lines combined)"
  let ?T = "{token_of (length combined) j (combined ! j) | j. j < length combined}"
  have "line_ok ?T l"
    by (rule pack_lines_ok [OF _ l]) blast
  then show "length l \<le> 100 \<or>
     (\<exists>i<length combined.
        l = indent @ token_of (length combined) i (combined ! i) \<and>
        97 < length (token_of (length combined) i (combined ! i)))"
    unfolding line_ok_def by blast
qed

theorem pack_lines_width_witness:
  "indent @ str ''\"alpha\", \"beta\"'' \<in> set (pack_lines [str ''alpha'', str ''beta'']) \<and>
   (length (indent @ str ''\"alpha\", \"beta\"'') \<le> 100 \<or>
    (\<exists>i<length [str ''alpha'', str ''beta''].
       indent @ str ''\"alpha\", \"beta\"'' =
         indent @ token_of (length [str ''alpha'', str ''beta'']) i ([str ''alpha'', str ''beta''] ! i) \<and>
       97 < length (token_of (length [str ''alpha'', str ''beta'']) i
                      ([str ''alpha'', str ''beta''] ! i))))"
proof -
  have m: "indent @ str ''\"alpha\", \"beta\"'' \<in> set (pack_lines [str ''alpha'', str ''beta''])"
    by (simp add: pack_lines_def token_of_def indent_def str_def rstrip_def strip_def
        lstrip_def py_isspace_def)
  from m bspec [OF pack_lines_width m] show ?thesis by (rule conjI)
qed

text \<open>
  Claim C4, as the specification states it, fails: one element of 96 characters gives
  a token of 98 characters, which alone is within the width of 100, and the line that
  holds it behind the indent has 101 characters.
\<close>

theorem pack_lines_width_counterexample:
  "length (token_of 1 0 (replicate 96 97)) = 98 \<and>
   pack_lines [replicate 96 97] = [[], indent @ token_of 1 0 (replicate 96 97)] \<and>
   length (pack_lines [replicate 96 97] ! 1) = 101"
  by (simp add: pack_lines_def token_of_def indent_def rstrip_def strip_def lstrip_def
      py_isspace_def)

section \<open>The command runner\<close>

lemma diagnostic_cmd: "sublist (join (str '' '') cmd) (diagnostic d cmd code out err)"
proof -
  have "diagnostic d cmd code out err =
      (str ''[run] Command failed'' @ [10] @ str ''[run] cwd: '' @ d @ [10] @ str ''[run] cmd: '') @
      join (str '' '') cmd @
      ([10] @ str ''[run] exit_code: '' @ str_int code @ [10] @ str ''[run] --- stdout ---'' @ [10] @
       out @ [10] @ str ''[run] --- stderr ---'' @ [10] @ err @ [10] @
       str ''[run] ---------------'' @ [10])"
    by (simp add: diagnostic_def)
  then show ?thesis by (simp only: sublist_appendI)
qed

lemma diagnostic_cwd: "sublist d (diagnostic d cmd code out err)"
proof -
  have "diagnostic d cmd code out err =
      (str ''[run] Command failed'' @ [10] @ str ''[run] cwd: '') @ d @
      ([10] @ str ''[run] cmd: '' @ join (str '' '') cmd @
       [10] @ str ''[run] exit_code: '' @ str_int code @ [10] @ str ''[run] --- stdout ---'' @ [10] @
       out @ [10] @ str ''[run] --- stderr ---'' @ [10] @ err @ [10] @
       str ''[run] ---------------'' @ [10])"
    by (simp add: diagnostic_def)
  then show ?thesis by (simp only: sublist_appendI)
qed

lemma diagnostic_code: "sublist (str_int code) (diagnostic d cmd code out err)"
proof -
  have "diagnostic d cmd code out err =
      (str ''[run] Command failed'' @ [10] @ str ''[run] cwd: '' @ d @ [10] @ str ''[run] cmd: '' @
       join (str '' '') cmd @ [10] @ str ''[run] exit_code: '') @ str_int code @
      ([10] @ str ''[run] --- stdout ---'' @ [10] @
       out @ [10] @ str ''[run] --- stderr ---'' @ [10] @ err @ [10] @
       str ''[run] ---------------'' @ [10])"
    by (simp add: diagnostic_def)
  then show ?thesis by (simp only: sublist_appendI)
qed

lemma diagnostic_stdout: "sublist out (diagnostic d cmd code out err)"
proof -
  have "diagnostic d cmd code out err =
      (str ''[run] Command failed'' @ [10] @ str ''[run] cwd: '' @ d @ [10] @ str ''[run] cmd: '' @
       join (str '' '') cmd @ [10] @ str ''[run] exit_code: '' @ str_int code @
       [10] @ str ''[run] --- stdout ---'' @ [10]) @ out @
      ([10] @ str ''[run] --- stderr ---'' @ [10] @ err @ [10] @
       str ''[run] ---------------'' @ [10])"
    by (simp add: diagnostic_def)
  then show ?thesis by (simp only: sublist_appendI)
qed

lemma diagnostic_stderr: "sublist err (diagnostic d cmd code out err)"
proof -
  have "diagnostic d cmd code out err =
      (str ''[run] Command failed'' @ [10] @ str ''[run] cwd: '' @ d @ [10] @ str ''[run] cmd: '' @
       join (str '' '') cmd @ [10] @ str ''[run] exit_code: '' @ str_int code @
       [10] @ str ''[run] --- stdout ---'' @ [10] @ out @
       [10] @ str ''[run] --- stderr ---'' @ [10]) @ err @
      ([10] @ str ''[run] ---------------'' @ [10])"
    by (simp add: diagnostic_def)
  then show ?thesis by (simp only: sublist_appendI)
qed

text \<open>
  Claim C6, as the code has it. When a command run with failure checking exits with a
  nonzero code, \<^verbatim>\<open>run\<close> appends to the error stream a block that contains the
  command, the working directory (the given one, or the one of the process), the exit
  code and both captured streams, and then fails with the \<^verbatim>\<open>CalledProcessError\<close>,
  which carries the exit code, the command and both captured streams.
\<close>

theorem run_failure_reported:
  assumes "ex cmd cwd input_str (files w, ext w) = (Inr p, st)"
    and "returncode p \<noteq> 0"
  shows "\<exists>w' block.
           run ex cmd cwd True input_str w =
             (Inl (CalledProcessError (returncode p) cmd (stdout p) (stderr p)), w') \<and>
           sys_stderr w' = sys_stderr w @ block \<and>
           sublist (join (str '' '') cmd) block \<and>
           sublist (case cwd of Some d \<Rightarrow> d | None \<Rightarrow> getcwd w) block \<and>
           sublist (str_int (returncode p)) block \<and>
           sublist (stdout p) block \<and>
           sublist (stderr p) block"
proof -
  let ?block = "diagnostic (case cwd of Some d \<Rightarrow> d | None \<Rightarrow> getcwd w) cmd
                  (returncode p) (stdout p) (stderr p)"
  have "\<exists>w'. run ex cmd cwd True input_str w =
            (Inl (CalledProcessError (returncode p) cmd (stdout p) (stderr p)), w') \<and>
          sys_stderr w' = sys_stderr w @ ?block"
    using assms by (cases st; cases cwd) (simp_all add: run_def Let_def)
  then obtain w' where
    r: "run ex cmd cwd True input_str w =
          (Inl (CalledProcessError (returncode p) cmd (stdout p) (stderr p)), w')"
    and e: "sys_stderr w' = sys_stderr w @ ?block"
    by blast
  show ?thesis
  proof (intro exI conjI)
    show "run ex cmd cwd True input_str w =
          (Inl (CalledProcessError (returncode p) cmd (stdout p) (stderr p)), w')"
      by (rule r)
    show "sys_stderr w' = sys_stderr w @ ?block"
      by (rule e)
    show "sublist (join (str '' '') cmd) ?block"
      by (rule diagnostic_cmd)
    show "sublist (case cwd of Some d \<Rightarrow> d | None \<Rightarrow> getcwd w) ?block"
      by (rule diagnostic_cwd)
    show "sublist (str_int (returncode p)) ?block"
      by (rule diagnostic_code)
    show "sublist (stdout p) ?block"
      by (rule diagnostic_stdout)
    show "sublist (stderr p) ?block"
      by (rule diagnostic_stderr)
  qed
qed

theorem run_failure_reported_witness:
  "fail_exec [str ''git'', str ''fetch''] (Some (str ''/a'')) None (files world0, ext world0) =
     (Inr \<lparr>returncode = 1, stdout = str ''out'', stderr = str ''err''\<rparr>, (Map.empty, ())) \<and>
   (\<exists>w' block.
      run fail_exec [str ''git'', str ''fetch''] (Some (str ''/a'')) True None world0 =
        (Inl (CalledProcessError 1 [str ''git'', str ''fetch''] (str ''out'') (str ''err'')), w') \<and>
      sys_stderr w' = sys_stderr world0 @ block \<and>
      sublist (join (str '' '') [str ''git'', str ''fetch'']) block \<and>
      sublist (str ''/a'') block \<and>
      sublist (str_int 1) block \<and>
      sublist (str ''out'') block \<and>
      sublist (str ''err'') block)"
proof -
  have h: "fail_exec [str ''git'', str ''fetch''] (Some (str ''/a'')) None (files world0, ext world0) =
     (Inr \<lparr>returncode = 1, stdout = str ''out'', stderr = str ''err''\<rparr>, (Map.empty, ()))"
    by (simp add: fail_exec_def world0_def)
  have n: "returncode \<lparr>returncode = 1, stdout = str ''out'', stderr = str ''err''\<rparr> \<noteq> 0"
    by simp
  from run_failure_reported [of fail_exec "[str ''git'', str ''fetch'']" "Some (str ''/a'')" None
      world0 "\<lparr>returncode = 1, stdout = str ''out'', stderr = str ''err''\<rparr>" "(Map.empty, ())",
      OF h n] have
    "\<exists>w' block.
      run fail_exec [str ''git'', str ''fetch''] (Some (str ''/a'')) True None world0 =
        (Inl (CalledProcessError 1 [str ''git'', str ''fetch''] (str ''out'') (str ''err'')), w') \<and>
      sys_stderr w' = sys_stderr world0 @ block \<and>
      sublist (join (str '' '') [str ''git'', str ''fetch'']) block \<and>
      sublist (str ''/a'') block \<and>
      sublist (str_int 1) block \<and>
      sublist (str ''out'') block \<and>
      sublist (str ''err'') block"
    by simp
  with h show ?thesis by (rule conjI)
qed

text \<open>
  Claim C6, as the specification states it, fails in one point: the error does not
  carry the working directory. The same failing command run in two different working
  directories raises one and the same error.
\<close>

theorem run_error_without_cwd_counterexample:
  "fst (run fail_exec [str ''git'', str ''fetch''] (Some (str ''/a'')) True None world0) =
     Inl (CalledProcessError 1 [str ''git'', str ''fetch''] (str ''out'') (str ''err'')) \<and>
   fst (run fail_exec [str ''git'', str ''fetch''] (Some (str ''/b'')) True None world0) =
     Inl (CalledProcessError 1 [str ''git'', str ''fetch''] (str ''out'') (str ''err''))"
  by (simp add: run_def fail_exec_def world0_def Let_def)

section \<open>The bidder list parser\<close>


section \<open>The submodule sync\<close>

text \<open>
  Claim C9. If the repository has no \<^verbatim>\<open>.gitmodules\<close> file, the submodule sync returns
  \<^verbatim>\<open>False\<close> and leaves the whole state as it was: no command is started (the list of
  effects is unchanged) and nothing is written.
\<close>

theorem sync_without_gitmodules:
  "\<not> path_exists (path_join pubfig_repo (str ''.gitmodules'')) w \<Longrightarrow>
   sync_pubfig_submodule_to_prebid_sha ex pubfig_repo submodule_path target_sha w = (Inr False, w)"
  by (simp add: sync_pubfig_submodule_to_prebid_sha_def)

theorem sync_without_gitmodules_witness:
  "\<not> path_exists (path_join (str ''/pubfig'') (str ''.gitmodules'')) world0 \<and>
   sync_pubfig_submodule_to_prebid_sha ok_exec (str ''/pubfig'') (str ''pbjs-poc'')
     (str ''abc1234'') world0 = (Inr False, world0)"
proof -
  have h: "\<not> path_exists (path_join (str ''/pubfig'') (str ''.gitmodules'')) world0"
    by (simp add: path_exists_def world0_def)
  from h sync_without_gitmodules [OF h] show ?thesis by (rule conjI)
qed

section \<open>The effects of a run\<close>

lemma replicate_numeral: "replicate (numeral k) x = x # replicate (pred_numeral k) x"
  by (simp add: numeral_eq_Suc)

lemma io_bind_succ:
  "io_bind m f w = (Inr b, w') \<Longrightarrow> \<exists>a w1. m w = (Inr a, w1) \<and> f a w1 = (Inr b, w')"
  by (auto simp: io_bind_def split: prod.splits sum.splits)

lemma io_return_succ: "io_return a w = (Inr b, w') \<Longrightarrow> b = a \<and> w' = w"
  by (simp add: io_return_def)

lemma run_trace:
  "run ex cmd cwd check inp w = (r, w') \<Longrightarrow> trace w' = trace w @ [Spawn cmd cwd inp]"
  by (auto simp: run_def Let_def split: prod.splits sum.splits if_splits)

lemma git_prepare_branch_trace:
  assumes "git_prepare_branch ex repo base nb w = (Inr u, w')"
  shows "trace w' = trace w @ prepare_events repo base nb"
  using assms unfolding git_prepare_branch_def prepare_events_def
  by (auto dest!: io_bind_succ io_return_succ run_trace)

lemma git_commit_push_trace:
  assumes "git_commit_push ex repo branch title w = (Inr pushed, w')"
  shows "trace w' = trace w @
     Spawn [str ''git'', str ''status'', str ''--porcelain''] (Some repo) None #
     (if pushed then
        [Spawn [str ''git'', str ''add'', str ''-A''] (Some repo) None,
         Spawn [str ''git'', str ''commit'', str ''-m'', title] (Some repo) None,
         Spawn [str ''git'', str ''push'', str ''-u'', str ''origin'', branch] (Some repo) None]
      else [])"
  using assms unfolding git_commit_push_def
  by (auto dest!: io_bind_succ io_return_succ run_trace split: if_splits)

lemma gh_open_pr_trace:
  assumes "gh_open_pr ex repo title body base head w = (Inr url, w')"
  shows "trace w' = trace w @
        [Spawn [str ''gh'', str ''pr'', str ''create'', str ''--title'', title, str ''--body'', body,
                str ''--base'', base, str ''--head'', head] (Some repo) None,
         Spawn [str ''gh'', str ''pr'', str ''view'', str ''--json'', str ''url'', str ''--jq'', str ''.url'']
           (Some repo) None]"
  using assms unfolding gh_open_pr_def
  by (auto dest!: io_bind_succ io_return_succ run_trace)

lemma commit_and_pr_trace:
  assumes "commit_and_pr ex repo branch title body base w = (Inr pr, w')"
  shows "\<exists>dirty. trace w' = trace w @ publish_events repo branch title body base dirty"
proof -
  from assms obtain pushed w1 where
    1: "git_commit_push ex repo branch title w = (Inr pushed, w1)" and
    2: "(if pushed then gh_open_pr ex repo title body base branch else io_return []) w1 = (Inr pr, w')"
    unfolding commit_and_pr_def by (blast dest: io_bind_succ)
  show ?thesis
  proof (cases pushed)
    case True
    with 2 have "trace w' = trace w1 @
        [Spawn [str ''gh'', str ''pr'', str ''create'', str ''--title'', title, str ''--body'', body,
                str ''--base'', base, str ''--head'', branch] (Some repo) None,
         Spawn [str ''gh'', str ''pr'', str ''view'', str ''--json'', str ''url'', str ''--jq'', str ''.url'']
           (Some repo) None]"
      by (simp add: gh_open_pr_trace)
    with git_commit_push_trace [OF 1] True
    have "trace w' = trace w @ publish_events repo branch title body base True"
      by (simp add: publish_events_def)
    then show ?thesis ..
  next
    case False
    with 2 have "w' = w1" by (simp add: io_return_def)
    with git_commit_push_trace [OF 1] False
    have "trace w' = trace w @ publish_events repo branch title body base False"
      by (simp add: publish_events_def)
    then show ?thesis ..
  qed
qed

lemma sync_trace:
  assumes "sync_pubfig_submodule_to_prebid_sha ex repo sub sha w = (Inr c, w')"
  shows "trace w' = trace w @
     (if path_exists (path_join repo (str ''.gitmodules'')) w then sync_events repo sub sha else [])"
proof (cases "path_exists (path_join repo (str ''.gitmodules'')) w")
  case True
  with assms show ?thesis
    unfolding sync_pubfig_submodule_to_prebid_sha_def sync_events_def
    by (auto simp: Let_def dest!: io_bind_succ io_return_succ run_trace)
next
  case False
  with assms show ?thesis
    by (simp add: sync_pubfig_submodule_to_prebid_sha_def)
qed

lemma gh_login_trace:
  assumes "gh_login_from_env ex w = (r, w')"
  shows "\<exists>evs. trace w' = trace w @ evs \<and> login_events evs"
proof -
  have nil: "login_events []" by (simp add: login_events_def)
  show ?thesis
  proof (cases "token_from_env w")
    case None
    with assms have "w' = w" by (simp add: gh_login_from_env_def)
    with nil show ?thesis by auto
  next
    case (Some token)
    show ?thesis
    proof (cases "token = []")
      case True
      with Some assms have "w' = w" by (simp add: gh_login_from_env_def)
      with nil show ?thesis by auto
    next
      case False
      obtain r1 w1 where 1: "run ex [str ''gh'', str ''auth'', str ''status''] None True None w = (r1, w1)"
        by (cases "run ex [str ''gh'', str ''auth'', str ''status''] None True None w")
      have t1: "trace w1 = trace w @ [Spawn [str ''gh'', str ''auth'', str ''status''] None None]"
        by (rule run_trace [OF 1])
      have l1: "login_events [Spawn [str ''gh'', str ''auth'', str ''status''] None None]"
        by (simp add: login_events_def)
      show ?thesis
      proof (cases "\<exists>a b c d. r1 = Inl (CalledProcessError a b c d)")
        case True
        then obtain a b c d where r1: "r1 = Inl (CalledProcessError a b c d)" by blast
        obtain r2 w2 where 2: "run ex [str ''gh'', str ''auth'', str ''login'', str ''--with-token'']
                            None True (Some token) w1 = (r2, w2)"
          by (cases "run ex [str ''gh'', str ''auth'', str ''login'', str ''--with-token'']
                            None True (Some token) w1")
        have t2: "trace w2 = trace w1 @ [Spawn [str ''gh'', str ''auth'', str ''login'', str ''--with-token''] None (Some token)]"
          by (rule run_trace [OF 2])
        from assms Some False 1 r1 2 have "w' = w2"
          by (auto simp: gh_login_from_env_def io_bind_def io_return_def split: sum.splits)
        with t1 t2 have "trace w' = trace w @ [Spawn [str ''gh'', str ''auth'', str ''status''] None None,
           Spawn [str ''gh'', str ''auth'', str ''login'', str ''--with-token''] None (Some token)]"
          by simp
        moreover have "login_events [Spawn [str ''gh'', str ''auth'', str ''status''] None None,
           Spawn [str ''gh'', str ''auth'', str ''login'', str ''--with-token''] None (Some token)]"
          by (simp add: login_events_def)
        ultimately show ?thesis by blast
      next
        case F: False
        with assms Some False 1 have "w' = w1"
          by (auto simp: gh_login_from_env_def split: sum.splits exn.splits)
        with t1 l1 show ?thesis by blast
      qed
    qed
  qed
qed

lemma ensure_trace:
  assumes "ensure_line_in_json_array p v w = (r, w')"
  shows "\<exists>evs. trace w' = trace w @ evs \<and> writes_to p evs"
proof -
  have "w' = w \<or> (\<exists>t. trace w' = trace w @ [Write p t])"
    using assms
    by (auto simp: ensure_line_in_json_array_def io_bind_def read_text_def write_text_def
        io_return_def io_raise_def split: option.splits json.splits if_splits)
  then show ?thesis
  proof
    assume "w' = w"
    then have "trace w' = trace w @ [] \<and> writes_to p []" by (simp add: writes_to_def)
    then show ?thesis by blast
  next
    assume "\<exists>t. trace w' = trace w @ [Write p t]"
    then obtain t where "trace w' = trace w @ [Write p t]" by blast
    moreover have "writes_to p [Write p t]" by (simp add: writes_to_def)
    ultimately show ?thesis by blast
  qed
qed

lemma update_loop_trace:
  "update_loop p bs c w = (r, w') \<Longrightarrow> \<exists>evs. trace w' = trace w @ evs \<and> writes_to p evs"
proof (induction bs arbitrary: c w)
  case Nil
  then have "w' = w" by (simp add: io_return_def)
  then have "trace w' = trace w @ [] \<and> writes_to p []" by (simp add: writes_to_def)
  then show ?case by blast
next
  case (Cons b bs)
  obtain r1 w1 where 1: "ensure_line_in_json_array p (b @ str ''BidAdapter'') w = (r1, w1)"
    by (cases "ensure_line_in_json_array p (b @ str ''BidAdapter'') w")
  from ensure_trace [OF 1] obtain e1 where e1: "trace w1 = trace w @ e1" "writes_to p e1" by blast
  show ?case
  proof (cases r1)
    case (Inl e)
    with Cons.prems 1 have "w' = w1" by (simp add: io_bind_def)
    with e1 show ?thesis by blast
  next
    case (Inr c1)
    with Cons.prems 1 have "update_loop p bs (c \<or> c1) w1 = (r, w')" by (simp add: io_bind_def)
    from Cons.IH [OF this] obtain e2 where "trace w' = trace w1 @ e2" "writes_to p e2" by blast
    with e1 have "trace w' = trace w @ (e1 @ e2)" "writes_to p (e1 @ e2)"
      by (auto simp: writes_to_def)
    then show ?thesis by blast
  qed
qed

lemma update_prebid_modules_trace:
  assumes "update_prebid_modules repo bs w = (r, w')"
  shows "\<exists>evs. trace w' = trace w @ evs \<and> writes_to (path_join repo (str ''modules.json'')) evs"
proof (cases "path_exists (path_join repo (str ''modules.json'')) w")
  case True
  with assms have "update_loop (path_join repo (str ''modules.json'')) bs False w = (r, w')"
    by (simp add: update_prebid_modules_def)
  then show ?thesis by (rule update_loop_trace)
next
  case False
  with assms have "w' = w" by (auto simp: update_prebid_modules_def)
  then have "trace w' = trace w @ [] \<and> writes_to (path_join repo (str ''modules.json'')) []"
    by (simp add: writes_to_def)
  then show ?thesis by blast
qed

lemma update_ams_helper_trace:
  assumes "update_ams_helper repo bs w = (r, w')"
  shows "\<exists>evs. trace w' = trace w @ evs \<and> writes_to (path_join repo helper_path) evs"
proof -
  have "w' = w \<or> (\<exists>t. trace w' = trace w @ [Write (path_join repo helper_path) t])"
    using assms
    by (auto simp: update_ams_helper_def Let_def io_bind_def read_text_def write_text_def
        io_return_def io_raise_def split: option.splits if_splits)
  then show ?thesis
  proof
    assume "w' = w"
    then have "trace w' = trace w @ [] \<and> writes_to (path_join repo helper_path) []"
      by (simp add: writes_to_def)
    then show ?thesis by blast
  next
    assume "\<exists>t. trace w' = trace w @ [Write (path_join repo helper_path) t]"
    then obtain t where "trace w' = trace w @ [Write (path_join repo helper_path) t]" by blast
    moreover have "writes_to (path_join repo helper_path) [Write (path_join repo helper_path) t]"
      by (simp add: writes_to_def)
    ultimately show ?thesis by blast
  qed
qed


lemma print_stdout_trace: "print_stdout t w = (r, w') \<Longrightarrow> trace w' = trace w"
  by (auto simp: print_stdout_def)

lemma main_trace:
  assumes "main ex a w = (Inr u, w')"
  shows "\<exists>bidders login ws1 ws2 d1 d2 d3 sha synced.
     parse_bidders (arg_bidders a) = Inr bidders \<and> bidders \<noteq> [] \<and>
     login_events login \<and>
     writes_to (path_join (arg_prebid_repo a) (str ''modules.json'')) ws1 \<and>
     writes_to (path_join (arg_ams_repo a) helper_path) ws2 \<and>
     trace w' = trace w @ login @ ws1 @ ws2 @
       prepare_events (arg_prebid_repo a) (arg_base_branch a) (branch_name_of bidders) @
       publish_events (arg_prebid_repo a) (branch_name_of bidders) (prebid_title bidders)
         prebid_body (arg_base_branch a) d1 @
       [Spawn [str ''git'', str ''rev-parse'', str ''HEAD''] (Some (arg_prebid_repo a)) None] @
       prepare_events (arg_pubfig_repo a) (arg_base_branch a) (branch_name_of bidders) @
       (if synced then sync_events (arg_pubfig_repo a) (str ''pbjs-poc'') sha else []) @
       publish_events (arg_pubfig_repo a) (branch_name_of bidders) (pubfig_title sha)
         pubfig_body (arg_base_branch a) d2 @
       prepare_events (arg_ams_repo a) (arg_base_branch a) (branch_name_of bidders) @
       publish_events (arg_ams_repo a) (branch_name_of bidders) (ams_title bidders)
         ams_body (arg_base_branch a) d3"
proof -
  obtain bidders where pb: "parse_bidders (arg_bidders a) = Inr bidders"
    using assms by (cases "parse_bidders (arg_bidders a)") (auto simp: main_def io_raise_def)
  have ne: "bidders \<noteq> []"
    using assms pb by (auto simp: main_def)
  let ?bn = "branch_name_of bidders"
  let ?base = "arg_base_branch a"
  from assms pb ne obtain w1 c1 w2 c2 w3 w4 pr1 w5 p w6 w7 c3 w8 pr2 w9 w10 pr3 w11 where
    s1: "gh_login_from_env ex w = (Inr (), w1)" and
    s2: "update_prebid_modules (arg_prebid_repo a) bidders w1 = (Inr c1, w2)" and
    s3: "update_ams_helper (arg_ams_repo a) bidders w2 = (Inr c2, w3)" and
    s4: "git_prepare_branch ex (arg_prebid_repo a) ?base ?bn w3 = (Inr (), w4)" and
    s5: "commit_and_pr ex (arg_prebid_repo a) ?bn (prebid_title bidders) prebid_body ?base w4 = (Inr pr1, w5)" and
    s6: "run ex [str ''git'', str ''rev-parse'', str ''HEAD''] (Some (arg_prebid_repo a)) True None w5 = (Inr p, w6)" and
    s7: "git_prepare_branch ex (arg_pubfig_repo a) ?base ?bn w6 = (Inr (), w7)" and
    s8: "sync_pubfig_submodule_to_prebid_sha ex (arg_pubfig_repo a) (str ''pbjs-poc'') (strip (stdout p)) w7 = (Inr c3, w8)" and
    s9: "commit_and_pr ex (arg_pubfig_repo a) ?bn (pubfig_title (strip (stdout p))) pubfig_body ?base w8 = (Inr pr2, w9)" and
    s10: "git_prepare_branch ex (arg_ams_repo a) ?base ?bn w9 = (Inr (), w10)" and
    s11: "commit_and_pr ex (arg_ams_repo a) ?bn (ams_title bidders) ams_body ?base w10 = (Inr pr3, w11)" and
    s12: "trace w' = trace w11"
    by (auto simp: main_def Let_def dest!: io_bind_succ print_stdout_trace)
  from gh_login_trace [OF s1] obtain login where
    t1: "trace w1 = trace w @ login" and l: "login_events login" by blast
  from update_prebid_modules_trace [OF s2] obtain ws1 where
    t2: "trace w2 = trace w1 @ ws1" and
    l2: "writes_to (path_join (arg_prebid_repo a) (str ''modules.json'')) ws1" by blast
  from update_ams_helper_trace [OF s3] obtain ws2 where
    t3: "trace w3 = trace w2 @ ws2" and
    l3: "writes_to (path_join (arg_ams_repo a) helper_path) ws2" by blast
  note t4 = git_prepare_branch_trace [OF s4]
  from commit_and_pr_trace [OF s5] obtain d1 where
    t5: "trace w5 = trace w4 @ publish_events (arg_prebid_repo a) ?bn (prebid_title bidders) prebid_body ?base d1"
    by blast
  note t6 = run_trace [OF s6]
  note t7 = git_prepare_branch_trace [OF s7]
  note t8 = sync_trace [OF s8]
  from commit_and_pr_trace [OF s9] obtain d2 where
    t9: "trace w9 = trace w8 @ publish_events (arg_pubfig_repo a) ?bn (pubfig_title (strip (stdout p))) pubfig_body ?base d2"
    by blast
  note t10 = git_prepare_branch_trace [OF s10]
  from commit_and_pr_trace [OF s11] obtain d3 where
    t11: "trace w11 = trace w10 @ publish_events (arg_ams_repo a) ?bn (ams_title bidders) ams_body ?base d3"
    by blast
  have "trace w' = trace w @ login @ ws1 @ ws2 @
       prepare_events (arg_prebid_repo a) ?base ?bn @
       publish_events (arg_prebid_repo a) ?bn (prebid_title bidders) prebid_body ?base d1 @
       [Spawn [str ''git'', str ''rev-parse'', str ''HEAD''] (Some (arg_prebid_repo a)) None] @
       prepare_events (arg_pubfig_repo a) ?base ?bn @
       (if path_exists (path_join (arg_pubfig_repo a) (str ''.gitmodules'')) w7
        then sync_events (arg_pubfig_repo a) (str ''pbjs-poc'') (strip (stdout p)) else []) @
       publish_events (arg_pubfig_repo a) ?bn (pubfig_title (strip (stdout p))) pubfig_body ?base d2 @
       prepare_events (arg_ams_repo a) ?base ?bn @
       publish_events (arg_ams_repo a) ?bn (ams_title bidders) ams_body ?base d3"
    by (simp only: s12 t11 t10 t9 t8 t7 t6 t5 t4 t3 t2 t1 append_assoc)
  with pb ne l l2 l3 show ?thesis by blast
qed

text \<open>The definitions that evaluate a run on the example inputs.\<close>

lemmas eval_defs =
  main_def args1_def world1_def world0_def ok_exec_def run_def
  parse_bidders_def strip_def lstrip_def rstrip_def py_isspace_def
  gh_login_from_env_def token_from_env_def
  update_prebid_modules_def path_join_def path_exists_def
  ensure_line_in_json_array_def io_bind_def io_return_def io_raise_def read_text_def write_text_def
  json_loads_def skip_ws_def json_ws_def json_dumps_def encode_string_def escape_char_def
  newline_indent_def replicate_numeral helper_path_def
  update_ams_helper_def start_pat_def end_pat_def new_body_of_def pack_lines_def token_of_def indent_def
  git_prepare_branch_def commit_and_pr_def git_commit_push_def gh_open_pr_def
  sync_pubfig_submodule_to_prebid_sha_def print_stdout_def
  str_def Let_def

lemma main_args1: "main ok_exec args1 world1 = (Inr (), snd (main ok_exec args1 world1))"
proof -
  have "fst (main ok_exec args1 world1) = Inr ()"
    by (simp add: eval_defs)
  then show ?thesis by (simp add: prod_eq_iff)
qed

text \<open>
  Claim C2, as the code has it. In every run of \<^verbatim>\<open>main\<close> that completes, the effects
  come in this order: the \<^verbatim>\<open>gh auth\<close> commands of the login; the writes of the manifest
  \<^verbatim>\<open>modules.json\<close> and then of the helper source file, that is, the patches of the
  Prebid and of the AMS repository, before any \<^verbatim>\<open>git\<close> command; then for the Prebid
  repository fetch, checkout of the base branch, fast-forward pull, create-or-reset of
  the derived branch, the dirty check and, for a dirty tree, commit, push and pull
  request; then \<^verbatim>\<open>git rev-parse HEAD\<close>; then for the Pubfig repository the same four
  steps, only then its patch (the submodule sync), and the dirty check with commit,
  push and pull request; then for the AMS repository the four steps and the dirty check
  with commit, push and pull request.
\<close>

theorem main_order:
  assumes "main ex a w = (Inr u, w')"
  shows "\<exists>bidders login ws1 ws2 d1 d2 d3 sha synced.
     parse_bidders (arg_bidders a) = Inr bidders \<and> bidders \<noteq> [] \<and>
     login_events login \<and>
     writes_to (path_join (arg_prebid_repo a) (str ''modules.json'')) ws1 \<and>
     writes_to (path_join (arg_ams_repo a) helper_path) ws2 \<and>
     trace w' = trace w @ login @ ws1 @ ws2 @
       prepare_events (arg_prebid_repo a) (arg_base_branch a) (branch_name_of bidders) @
       publish_events (arg_prebid_repo a) (branch_name_of bidders) (prebid_title bidders)
         prebid_body (arg_base_branch a) d1 @
       [Spawn [str ''git'', str ''rev-parse'', str ''HEAD''] (Some (arg_prebid_repo a)) None] @
       prepare_events (arg_pubfig_repo a) (arg_base_branch a) (branch_name_of bidders) @
       (if synced then sync_events (arg_pubfig_repo a) (str ''pbjs-poc'') sha else []) @
       publish_events (arg_pubfig_repo a) (branch_name_of bidders) (pubfig_title sha)
         pubfig_body (arg_base_branch a) d2 @
       prepare_events (arg_ams_repo a) (arg_base_branch a) (branch_name_of bidders) @
       publish_events (arg_ams_repo a) (branch_name_of bidders) (ams_title bidders)
         ams_body (arg_base_branch a) d3"
  using assms by (rule main_trace)

theorem main_order_witness:
  "main ok_exec args1 world1 = (Inr (), snd (main ok_exec args1 world1)) \<and>
   (\<exists>bidders login ws1 ws2 d1 d2 d3 sha synced.
     parse_bidders (arg_bidders args1) = Inr bidders \<and> bidders \<noteq> [] \<and>
     login_events login \<and>
     writes_to (path_join (arg_prebid_repo args1) (str ''modules.json'')) ws1 \<and>
     writes_to (path_join (arg_ams_repo args1) helper_path) ws2 \<and>
     trace (snd (main ok_exec args1 world1)) = trace world1 @ login @ ws1 @ ws2 @
       prepare_events (arg_prebid_repo args1) (arg_base_branch args1) (branch_name_of bidders) @
       publish_events (arg_prebid_repo args1) (branch_name_of bidders) (prebid_title bidders)
         prebid_body (arg_base_branch args1) d1 @
       [Spawn [str ''git'', str ''rev-parse'', str ''HEAD''] (Some (arg_prebid_repo args1)) None] @
       prepare_events (arg_pubfig_repo args1) (arg_base_branch args1) (branch_name_of bidders) @
       (if synced then sync_events (arg_pubfig_repo args1) (str ''pbjs-poc'') sha else []) @
       publish_events (arg_pubfig_repo args1) (branch_name_of bidders) (pubfig_title sha)
         pubfig_body (arg_base_branch args1) d2 @
       prepare_events (arg_ams_repo args1) (arg_base_branch args1) (branch_name_of bidders) @
       publish_events (arg_ams_repo args1) (branch_name_of bidders) (ams_title bidders)
         ams_body (arg_base_branch args1) d3)"
  using main_args1 main_order [OF main_args1] by (rule conjI)

text \<open>
  Claim C2, as the specification states it, fails for the Prebid and the AMS repository:
  their patches are applied first. In the example run the first three effects are the
  write of the manifest, the write of the helper file, and only then the fetch in the
  Prebid repository.
\<close>

theorem main_patch_before_fetch_counterexample:
  "take 3 (trace (snd (main ok_exec args1 world1))) =
  [Write (str ''/prebid/modules.json'')
     (str ''['' @ [10] @ str ''    \"fooBidAdapter\",'' @ [10] @ str ''    \"kargoBidAdapter\"'' @ [10] @ str '']'' @ [10]),
   Write (path_join (str ''/ams'') helper_path)
     (start_pat @ [10, 9, 9, 9] @ str ''\"alpha\", \"kargo\"'' @ [10, 9, 9] @ str ''};''),
   Spawn [str ''git'', str ''fetch'', str ''origin''] (Some (str ''/prebid'')) None]"
  by (simp add: eval_defs)

lemma login_no_checkout:
  "login_events evs \<Longrightarrow> e \<in> set evs \<Longrightarrow> e \<noteq> Spawn [str ''git'', str ''checkout'', str ''-B'', b] cwd inp"
  by (auto simp: login_events_def str_def)

lemma writes_no_checkout:
  "writes_to p evs \<Longrightarrow> e \<in> set evs \<Longrightarrow> e \<noteq> Spawn c cwd inp"
  by (auto simp: writes_to_def)

lemma prepare_checkout:
  "Spawn [str ''git'', str ''checkout'', str ''-B'', b] cwd inp \<in> set (prepare_events repo base bn) \<Longrightarrow> b = bn"
  by (auto simp: prepare_events_def str_def)

lemma publish_no_checkout:
  "Spawn [str ''git'', str ''checkout'', str ''-B'', b] cwd inp \<notin> set (publish_events repo bn title body base d)"
  by (auto simp: publish_events_def str_def)

lemma sync_no_checkout:
  "Spawn [str ''git'', str ''checkout'', str ''-B'', b] cwd inp \<notin> set (sync_events repo sub sha)"
  by (auto simp: sync_events_def str_def)

lemma checkout_in_prepare: "checkout_B repo bn \<in> set (prepare_events repo base bn)"
  by (simp add: prepare_events_def checkout_B_def)

lemma branch_name_sorted:
  "\<exists>xs. branch_name_of bidders = str ''chore/add-bidders-'' @ join (str ''-'') xs \<and>
        sorted xs \<and> distinct xs \<and> set xs = set bidders"
proof -
  have "sorted (sorted_list_of_set (set bidders))" "distinct (sorted_list_of_set (set bidders))"
    "set (sorted_list_of_set (set bidders)) = set bidders"
    by simp_all
  then show ?thesis unfolding branch_name_of_def by blast
qed

text \<open>
  Claim C8. For every bidder list the branch name is \<^verbatim>\<open>chore/add-bidders-\<close> followed by
  the bidders without duplicates, sorted, joined by dashes; for \<^verbatim>\<open>teads\<close>, \<^verbatim>\<open>kargo\<close>,
  \<^verbatim>\<open>kargo\<close> it is \<^verbatim>\<open>chore/add-bidders-kargo-teads\<close>; and in a run of \<^verbatim>\<open>main\<close> that
  completes, the branch created or reset in each of the three repositories is this
  one, and no other branch is created or reset.
\<close>

theorem branch_name_shared:
  "(\<exists>xs. branch_name_of bidders = str ''chore/add-bidders-'' @ join (str ''-'') xs \<and>
         sorted xs \<and> distinct xs \<and> set xs = set bidders) \<and>
   branch_name_of [str ''teads'', str ''kargo'', str ''kargo''] =
     str ''chore/add-bidders-kargo-teads'' \<and>
   (main ex a w = (Inr u, w') \<and> parse_bidders (arg_bidders a) = Inr bidders \<longrightarrow>
      checkout_B (arg_prebid_repo a) (branch_name_of bidders) \<in> set (trace w') \<and>
      checkout_B (arg_pubfig_repo a) (branch_name_of bidders) \<in> set (trace w') \<and>
      checkout_B (arg_ams_repo a) (branch_name_of bidders) \<in> set (trace w') \<and>
      (\<forall>b cwd inp.
         Spawn [str ''git'', str ''checkout'', str ''-B'', b] cwd inp
           \<in> set (drop (length (trace w)) (trace w')) \<longrightarrow>
         b = branch_name_of bidders))"
proof (intro conjI impI)
  show "\<exists>xs. branch_name_of bidders = str ''chore/add-bidders-'' @ join (str ''-'') xs \<and>
         sorted xs \<and> distinct xs \<and> set xs = set bidders"
    by (rule branch_name_sorted)
  show "branch_name_of [str ''teads'', str ''kargo'', str ''kargo''] =
           str ''chore/add-bidders-kargo-teads''"
    by (simp add: branch_name_of_def sorted_list_of_set_sort_remdups str_def)
next
  assume run: "main ex a w = (Inr u, w') \<and> parse_bidders (arg_bidders a) = Inr bidders"
  from main_trace [of ex a w u w'] run obtain login ws1 ws2 d1 d2 d3 sha synced where
    l: "login_events login" and
    w1: "writes_to (path_join (arg_prebid_repo a) (str ''modules.json'')) ws1" and
    w2: "writes_to (path_join (arg_ams_repo a) helper_path) ws2" and
    t: "trace w' = trace w @ login @ ws1 @ ws2 @
       prepare_events (arg_prebid_repo a) (arg_base_branch a) (branch_name_of bidders) @
       publish_events (arg_prebid_repo a) (branch_name_of bidders) (prebid_title bidders)
         prebid_body (arg_base_branch a) d1 @
       [Spawn [str ''git'', str ''rev-parse'', str ''HEAD''] (Some (arg_prebid_repo a)) None] @
       prepare_events (arg_pubfig_repo a) (arg_base_branch a) (branch_name_of bidders) @
       (if synced then sync_events (arg_pubfig_repo a) (str ''pbjs-poc'') sha else []) @
       publish_events (arg_pubfig_repo a) (branch_name_of bidders) (pubfig_title sha)
         pubfig_body (arg_base_branch a) d2 @
       prepare_events (arg_ams_repo a) (arg_base_branch a) (branch_name_of bidders) @
       publish_events (arg_ams_repo a) (branch_name_of bidders) (ams_title bidders)
         ams_body (arg_base_branch a) d3"
    by auto
  show "checkout_B (arg_prebid_repo a) (branch_name_of bidders) \<in> set (trace w')"
    unfolding t using checkout_in_prepare by simp
  show "checkout_B (arg_pubfig_repo a) (branch_name_of bidders) \<in> set (trace w')"
    unfolding t using checkout_in_prepare by simp
  show "checkout_B (arg_ams_repo a) (branch_name_of bidders) \<in> set (trace w')"
    unfolding t using checkout_in_prepare by simp
  show "\<forall>b cwd inp.
         Spawn [str ''git'', str ''checkout'', str ''-B'', b] cwd inp
           \<in> set (drop (length (trace w)) (trace w')) \<longrightarrow>
         b = branch_name_of bidders"
  proof (intro allI impI)
    fix b cwd inp
    let ?e = "Spawn [str ''git'', str ''checkout'', str ''-B'', b] cwd inp"
    assume that: "?e \<in> set (drop (length (trace w)) (trace w'))"
    have rp: "?e \<noteq> Spawn [str ''git'', str ''rev-parse'', str ''HEAD''] (Some (arg_prebid_repo a)) None"
      by simp
    from that have "?e \<in> set login \<or> ?e \<in> set ws1 \<or> ?e \<in> set ws2 \<or>
        ?e \<in> set (prepare_events (arg_prebid_repo a) (arg_base_branch a) (branch_name_of bidders)) \<or>
        ?e \<in> set (prepare_events (arg_pubfig_repo a) (arg_base_branch a) (branch_name_of bidders)) \<or>
        ?e \<in> set (prepare_events (arg_ams_repo a) (arg_base_branch a) (branch_name_of bidders))"
      unfolding t using publish_no_checkout sync_no_checkout rp
      by (auto split: if_splits)
    then show "b = branch_name_of bidders"
      using login_no_checkout [OF l] writes_no_checkout [OF w1] writes_no_checkout [OF w2]
        prepare_checkout by blast
  qed
qed

lemma parse_bidders_args1: "parse_bidders (arg_bidders args1) = Inr [str ''kargo'']"
  by (simp add: args1_def parse_bidders_def str_def strip_def lstrip_def rstrip_def py_isspace_def)

theorem branch_name_shared_witness:
  "(main ok_exec args1 world1 = (Inr (), snd (main ok_exec args1 world1)) \<and>
    parse_bidders (arg_bidders args1) = Inr [str ''kargo'']) \<and>
   checkout_B (arg_prebid_repo args1) (branch_name_of [str ''kargo''])
     \<in> set (trace (snd (main ok_exec args1 world1))) \<and>
   checkout_B (arg_pubfig_repo args1) (branch_name_of [str ''kargo''])
     \<in> set (trace (snd (main ok_exec args1 world1))) \<and>
   checkout_B (arg_ams_repo args1) (branch_name_of [str ''kargo''])
     \<in> set (trace (snd (main ok_exec args1 world1))) \<and>
   checkout_B (arg_prebid_repo args1) (branch_name_of [str ''kargo''])
     \<in> set (drop (length (trace world1)) (trace (snd (main ok_exec args1 world1))))"
proof -
  have h: "main ok_exec args1 world1 = (Inr (), snd (main ok_exec args1 world1)) \<and>
    parse_bidders (arg_bidders args1) = Inr [str ''kargo'']"
    using main_args1 parse_bidders_args1 by (rule conjI)
  note T = mp [OF conjunct2 [OF conjunct2 [OF branch_name_shared
    [of "[str ''kargo'']" ok_exec args1 world1 "()" "snd (main ok_exec args1 world1)"]]] h]
  note c1 = conjunct1 [OF T]
  note c2 = conjunct1 [OF conjunct2 [OF T]]
  note c3 = conjunct1 [OF conjunct2 [OF conjunct2 [OF T]]]
  have "trace world1 = []" by (simp add: world1_def world0_def)
  with c1 have c4: "checkout_B (arg_prebid_repo args1) (branch_name_of [str ''kargo''])
     \<in> set (drop (length (trace world1)) (trace (snd (main ok_exec args1 world1))))"
    by simp
  from h c1 c2 c3 c4 show ?thesis by (elim conjE) (intro conjI; assumption)
qed

section \<open>The source array patcher\<close>

lemma closed_sep: "34 \<notin> set sep \<Longrightarrow> closed_text sep []"
  unfolding closed_text_def by (induction sep) auto

lemma closed_quoted:
  assumes "x \<noteq> []" and "34 \<notin> set x"
  shows "closed_text (34 # x @ [34]) [x]"
proof -
  have "takeWhile (\<lambda>c. c \<noteq> 34) (x @ 34 # r) = x" for r
    using assms(2) by (induction x) auto
  moreover have "dropWhile (\<lambda>c. c \<noteq> 34) (x @ 34 # r) = 34 # r" for r
    using assms(2) by (induction x) auto
  ultimately show ?thesis
    using assms(1) by (simp add: closed_text_def)
qed

lemma closed_append:
  "closed_text a xs \<Longrightarrow> closed_text b ys \<Longrightarrow> closed_text (a @ b) (xs @ ys)"
  by (simp add: closed_text_def)

lemma closed_token:
  assumes "x \<noteq> []" and "34 \<notin> set x"
  shows "closed_text (token_of n i x) [x]"
proof -
  have "closed_text ((34 # x @ [34]) @ [44]) ([x] @ [])"
    by (rule closed_append [OF closed_quoted [OF assms] closed_sep]) simp
  with closed_quoted [OF assms] show ?thesis
    by (simp add: token_of_def Let_def)
qed

lemma closed_indent: "closed_text indent []"
  by (rule closed_sep) (simp add: indent_def)

lemma closed_snoc_sep: "closed_text a xs \<Longrightarrow> c \<noteq> 34 \<Longrightarrow> closed_text (a @ [c]) xs"
  using closed_append [of a xs "[c]" "[]"] closed_sep [of "[c]"] by simp

lemma lines_text_snoc: "lines_text (ls @ [l]) = lines_text ls @ l @ [10]"
  by (simp add: lines_text_def)

lemma pack_sem_rstrip:
  assumes "pack_sem done (lines, current)"
  shows "pack_sem done (lines @ [rstrip current], indent)"
proof -
  from assms obtain A B where d: "done = A @ B" and A: "closed_text (lines_text lines) A"
    and c: "(current = indent \<and> B = []) \<or>
         (\<exists>c. current = c @ [32] \<and> c \<noteq> [] \<and> \<not> py_isspace (last c) \<and> closed_text c B)"
    by (auto simp: pack_sem_def)
  have "closed_text (rstrip current) B"
    using c by (auto simp: rstrip_indent rstrip_snoc_space intro: closed_sep)
  then have "closed_text (lines_text (lines @ [rstrip current])) (A @ B)"
    unfolding lines_text_snoc
    using closed_append [OF A closed_snoc_sep [of "rstrip current" B 10]] by simp
  with d show ?thesis
    by (auto simp: pack_sem_def)
qed

lemma pack_sem_add:
  assumes "pack_sem done (lines, current)" and "x \<noteq> []" and "34 \<notin> set x"
  shows "pack_sem (done @ [x]) (lines, current @ token_of n i x @ [32])"
proof -
  from assms(1) obtain A B where d: "done = A @ B" and A: "closed_text (lines_text lines) A"
    and c: "(current = indent \<and> B = []) \<or>
         (\<exists>c. current = c @ [32] \<and> c \<noteq> [] \<and> \<not> py_isspace (last c) \<and> closed_text c B)"
    by (auto simp: pack_sem_def)
  have cur: "closed_text current B"
    using c closed_indent by (auto intro: closed_snoc_sep)
  have "closed_text (current @ token_of n i x) (B @ [x])"
    by (rule closed_append [OF cur closed_token [OF assms(2,3)]])
  moreover have "current @ token_of n i x \<noteq> []"
    using token_of_nonempty [of n i x] by simp
  moreover have "\<not> py_isspace (last (current @ token_of n i x))"
    using token_of_last [of n i x] token_of_nonempty [of n i x] by simp
  ultimately show ?thesis
    using d A unfolding pack_sem_def
    by (intro exI [of _ A] exI [of _ "B @ [x]"]) auto
qed

lemma pack_loop_sem:
  assumes "\<forall>x\<in>set rest. x \<noteq> [] \<and> 34 \<notin> set x" and "pack_sem done (lines, current)"
  shows "pack_sem (done @ rest) (pack_loop n i rest (lines, current))"
  using assms
proof (induction rest arbitrary: i lines current "done")
  case Nil
  then show ?case by simp
next
  case (Cons x rest)
  have x: "x \<noteq> []" "34 \<notin> set x" and r: "\<forall>x\<in>set rest. x \<noteq> [] \<and> 34 \<notin> set x"
    using Cons.prems(1) by auto
  show ?case
  proof (cases "length current + length (token_of n i x) > 100")
    case True
    have "pack_sem (done @ [x]) (lines @ [rstrip current], indent @ token_of n i x @ [32])"
      by (rule pack_sem_add [OF pack_sem_rstrip [OF Cons.prems(2)] x])
    from Cons.IH [OF r this] True show ?thesis by (simp add: Let_def)
  next
    case False
    have "pack_sem (done @ [x]) (lines, current @ token_of n i x @ [32])"
      by (rule pack_sem_add [OF Cons.prems(2) x])
    from Cons.IH [OF r this] False show ?thesis by (simp add: Let_def)
  qed
qed

lemma join_lines_text: "ls \<noteq> [] \<Longrightarrow> join [10] ls @ [10] = lines_text ls"
  by (induction "[10::nat]" ls rule: join.induct) (simp_all add: lines_text_def)

lemma strip_indent: "strip indent = []"
  by (simp add: strip_def lstrip_def rstrip_def indent_def py_isspace_def)

lemma strip_nonspace:
  assumes "c \<noteq> []" and "\<not> py_isspace (last c)"
  shows "strip (c @ [32]) \<noteq> []"
proof -
  from assms obtain ys y where c: "c = ys @ [y]" "\<not> py_isspace y"
    by (cases c rule: rev_cases) auto
  have "\<exists>zs. dropWhile py_isspace (ys @ [y, 32]) = zs @ [y, 32]"
  proof (induction ys)
    case Nil
    show ?case using c(2) by simp
  next
    case (Cons a ys)
    then obtain zs where "dropWhile py_isspace (ys @ [y, 32]) = zs @ [y, 32]" by blast
    then show ?case
      by (cases "py_isspace a") (auto intro: exI [of _ "a # ys"])
  qed
  then obtain zs where z: "dropWhile py_isspace (ys @ [y, 32]) = zs @ [y, 32]"
    by blast
  show ?thesis
    using c z by (simp add: strip_def lstrip_def rstrip_def py_isspace_32)
qed

lemma pack_sem_lines:
  assumes "pack_sem done (lines, indent)"
  shows "closed_text (lines_text lines) done"
proof -
  have "indent \<noteq> c @ [32]" for c
  proof
    assume "indent = c @ [32]"
    then have "last indent = last (c @ [32])" by simp
    then show False by (simp add: indent_def)
  qed
  with assms show ?thesis
    by (auto simp: pack_sem_def)
qed

lemma findall_new_body:
  assumes "\<forall>x\<in>set combined. x \<noteq> [] \<and> 34 \<notin> set x"
  shows "findall_quoted (new_body_of combined) = combined"
proof -
  obtain lines current
    where st: "pack_loop (length combined) 0 combined ([], indent) = (lines, current)"
    by (cases "pack_loop (length combined) 0 combined ([], indent)")
  have "pack_sem [] ([], indent)"
    by (auto simp: pack_sem_def lines_text_def closed_text_def)
  from pack_loop_sem [OF assms this, of "length combined" 0] st
  have sem: "pack_sem combined (lines, current)" by simp
  then obtain A B where d: "combined = A @ B" and A: "closed_text (lines_text lines) A"
    and c: "(current = indent \<and> B = []) \<or>
         (\<exists>c. current = c @ [32] \<and> c \<noteq> [] \<and> \<not> py_isspace (last c) \<and> closed_text c B)"
    by (auto simp: pack_sem_def)
  have fin: "closed_text (lines_text (pack_lines combined)) combined"
  proof (cases "current = indent")
    case True
    with c have "B = []" by (auto simp: indent_def)
    with True st d A show ?thesis by (simp add: pack_lines_def strip_indent)
  next
    case False
    with c obtain c' where c': "current = c' @ [32]" "c' \<noteq> []" "\<not> py_isspace (last c')"
      by auto
    then have "strip current \<noteq> []" by (simp add: strip_nonspace)
    then have "pack_lines combined = lines @ [rstrip current]"
      using st by (simp add: pack_lines_def)
    moreover have "closed_text (lines_text (lines @ [rstrip current])) combined"
      by (rule pack_sem_lines [OF pack_sem_rstrip [OF sem]])
    ultimately show ?thesis by simp
  qed
  have body: "closed_text (new_body_of combined) combined"
  proof (cases "pack_lines combined = []")
    case True
    with fin have "combined = []"
      by (simp add: lines_text_def closed_text_def)
    with True show ?thesis
      by (simp add: new_body_of_def closed_sep)
  next
    case False
    then have "new_body_of combined = [10] @ lines_text (pack_lines combined) @ [9, 9]"
      using join_lines_text [OF False] by (simp add: new_body_of_def)
    moreover have "closed_text ([10] @ lines_text (pack_lines combined) @ [9, 9]) ([] @ combined @ [])"
      by (intro closed_append fin closed_sep) simp_all
    ultimately show ?thesis by simp
  qed
  then have "findall_quoted (new_body_of combined @ []) = combined @ findall_quoted []"
    unfolding closed_text_def by blast
  then show ?thesis by simp
qed

lemma findall_items_wf: "x \<in> set (findall_quoted s) \<Longrightarrow> x \<noteq> [] \<and> 34 \<notin> set x"
proof (induction s rule: findall_quoted.induct)
  case 1
  then show ?case by simp
next
  case (2 c cs)
  then show ?case
    by (auto split: if_splits dest: set_takeWhileD)
qed








lemma ams_step:
  assumes "files w (path_join repo helper_path) = Some text" and "locate text = Some (s, e)"
  shows "update_ams_helper repo bidders w =
     (let existing = findall_quoted (take (e - s) (drop s text));
          new_items = filter (\<lambda>b. b \<notin> set existing) bidders;
          new_text = take s text @ new_body_of (existing @ new_items) @ drop e text
      in if new_items = [] then (Inr False, w)
         else (Inr True, w\<lparr>files := (files w)(path_join repo helper_path \<mapsto> new_text),
                            trace := trace w @ [Write (path_join repo helper_path) new_text]\<rparr>))"
proof -
  from assms(2) obtain m k where m: "find_lit start_pat text = Some m"
    and k: "find_lit end_pat (drop (m + length start_pat) text) = Some k"
    and s: "s = m + length start_pat" and e: "e = m + length start_pat + k"
    by (auto simp: locate_def split: option.splits)
  show ?thesis
    using assms(1) m k
    by (simp add: update_ams_helper_def path_exists_def io_bind_def read_text_def
        write_text_def io_return_def Let_def s e)
qed

lemma count_list_filter:
  "count_list (filter P xs) x = (if P x then count_list xs x else 0)"
  by (induction xs) auto

lemma count_list_absent: "x \<notin> set xs \<Longrightarrow> count_list xs x = 0"
  by (induction xs) auto

text \<open>
  Claim C10. If an identifier of the values list is not among the elements that
  \<^verbatim>\<open>update_ams_helper\<close> reads from the array, the function rewrites the file with the
  array body rebuilt from the existing elements followed by every value that is not an
  existing element, and this combined list holds the identifier as often as the values
  list does. When no value is empty or holds a double quote, the quoted elements of the
  rebuilt body are this combined list.
\<close>

theorem update_ams_helper_duplicates:
  assumes "files w (path_join repo helper_path) = Some text"
    and "locate text = Some (s, e)"
    and "x \<in> set bidders"
    and "x \<notin> set (findall_quoted (take (e - s) (drop s text)))"
  shows "\<exists>combined new_text.
           combined = findall_quoted (take (e - s) (drop s text)) @
             filter (\<lambda>b. b \<notin> set (findall_quoted (take (e - s) (drop s text)))) bidders \<and>
           new_text = take s text @ new_body_of combined @ drop e text \<and>
           update_ams_helper repo bidders w =
             (Inr True, w\<lparr>files := (files w)(path_join repo helper_path \<mapsto> new_text),
                          trace := trace w @ [Write (path_join repo helper_path) new_text]\<rparr>) \<and>
           count_list combined x = count_list bidders x \<and>
           ((\<forall>b\<in>set bidders. b \<noteq> [] \<and> 34 \<notin> set b) \<longrightarrow>
              findall_quoted (new_body_of combined) = combined)"
proof -
  let ?existing = "findall_quoted (take (e - s) (drop s text))"
  let ?new = "filter (\<lambda>b. b \<notin> set ?existing) bidders"
  let ?combined = "?existing @ ?new"
  let ?text = "take s text @ new_body_of ?combined @ drop e text"
  have "x \<in> set ?new" using assms(3,4) by simp
  then have ne: "?new \<noteq> []" by (auto simp: filter_empty_conv)
  have run: "update_ams_helper repo bidders w =
      (Inr True, w\<lparr>files := (files w)(path_join repo helper_path \<mapsto> ?text),
                   trace := trace w @ [Write (path_join repo helper_path) ?text]\<rparr>)"
    using ams_step [OF assms(1,2), of bidders] ne by (simp add: Let_def)
  have cnt: "count_list ?combined x = count_list bidders x"
    using assms(4) by (simp add: count_list_filter count_list_absent)
  have wf: "findall_quoted (new_body_of ?combined) = ?combined"
    if "\<forall>b\<in>set bidders. b \<noteq> [] \<and> 34 \<notin> set b"
  proof (rule findall_new_body, rule ballI)
    fix y assume "y \<in> set ?combined"
    then consider "y \<in> set ?existing" | "y \<in> set bidders" by auto
    then show "y \<noteq> [] \<and> 34 \<notin> set y"
    proof cases
      case 1
      then show ?thesis by (rule findall_items_wf)
    next
      case 2
      with that show ?thesis by blast
    qed
  qed
  from run cnt wf show ?thesis by blast
qed

lemma locate_world2:
  "locate (str ''class H { '' @ start_pat @ str '' \"alpha\" }; }'') = Some (79, 88)"
  by (simp add: locate_def start_pat_def end_pat_def str_def)





lemma files_world2:
  "files world2 (path_join (str ''/ams'') helper_path) =
     Some (str ''class H { '' @ start_pat @ str '' \"alpha\" }; }'')"
  by (simp add: world2_def world0_def)



theorem update_ams_helper_duplicates_witness:
  "(files world2 (path_join (str ''/ams'') helper_path) =
      Some (str ''class H { '' @ start_pat @ str '' \"alpha\" }; }'') \<and>
    locate (str ''class H { '' @ start_pat @ str '' \"alpha\" }; }'') = Some (79, 88) \<and>
    str ''beta'' \<in> set [str ''beta'', str ''beta''] \<and>
    str ''beta'' \<notin> set (findall_quoted (take (88 - 79)
       (drop 79 (str ''class H { '' @ start_pat @ str '' \"alpha\" }; }''))))) \<and>
   (\<exists>combined new_text.
      combined = [str ''alpha'', str ''beta'', str ''beta''] \<and>
      update_ams_helper (str ''/ams'') [str ''beta'', str ''beta''] world2 =
        (Inr True, world2\<lparr>files := (files world2)(path_join (str ''/ams'') helper_path \<mapsto> new_text),
                     trace := trace world2 @ [Write (path_join (str ''/ams'') helper_path) new_text]\<rparr>) \<and>
      count_list combined (str ''beta'') = 2 \<and>
      findall_quoted (new_body_of combined) = combined)"
proof -
  let ?text = "str ''class H { '' @ start_pat @ str '' \"alpha\" }; }''"
  have ex: "findall_quoted (take (88 - 79) (drop 79 ?text)) = [str ''alpha'']"
    by (simp add: start_pat_def str_def)
  have h3: "str ''beta'' \<in> set [str ''beta'', str ''beta'']" by simp
  have h4: "str ''beta'' \<notin> set (findall_quoted (take (88 - 79) (drop 79 ?text)))"
    unfolding ex by (simp add: str_def)
  have wf: "\<forall>b\<in>set [str ''beta'', str ''beta'']. b \<noteq> [] \<and> 34 \<notin> set b"
    by (simp add: str_def)
  have fl: "filter (\<lambda>b. b \<notin> set [str ''alpha'']) [str ''beta'', str ''beta''] =
      [str ''beta'', str ''beta'']"
    by (simp add: str_def)
  from update_ams_helper_duplicates [OF files_world2 locate_world2 h3 h4] wf
  have "\<exists>combined new_text.
      combined = [str ''alpha'', str ''beta'', str ''beta''] \<and>
      update_ams_helper (str ''/ams'') [str ''beta'', str ''beta''] world2 =
        (Inr True, world2\<lparr>files := (files world2)(path_join (str ''/ams'') helper_path \<mapsto> new_text),
                     trace := trace world2 @ [Write (path_join (str ''/ams'') helper_path) new_text]\<rparr>) \<and>
      count_list combined (str ''beta'') = 2 \<and>
      findall_quoted (new_body_of combined) = combined"
    unfolding ex fl by auto
  with files_world2 locate_world2 h3 h4 show ?thesis by blast
qed

section \<open>The decoder consumes its input\<close>

text \<open>Each scanner that succeeds leaves less text than it was given, so the length
  tests in \<^verbatim>\<open>parse_items\<close> and \<^verbatim>\<open>parse_members\<close> never fail; and the objects of
  decoded data hold each key once.\<close>

lemma scan_escape_shorter: "scan_escape s = Some (u, r) \<Longrightarrow> length r < length s"
  by (auto simp: scan_escape_def Let_def split: list.splits option.splits if_splits)

lemma scanstring_shorter: "scanstring s = Some (t, r) \<Longrightarrow> length r < length s"
proof (induction s arbitrary: t r rule: scanstring.induct)
  case 1
  then show ?case by simp
next
  case (2 c cs)
  show ?case
  proof (cases "c = 34")
    case True
    with 2(3) show ?thesis by simp
  next
    case n34: False
    show ?thesis
    proof (cases "c = 92")
      case True
      with n34 2(3) obtain u r1 t1 where e: "scan_escape cs = Some (u, r1)"
        and s: "scanstring r1 = Some (t1, r)"
        by (auto split: option.splits)
      from 2(1) [OF n34 True e refl s] scan_escape_shorter [OF e] show ?thesis by simp
    next
      case False
      with n34 2(3) obtain t1 where c: "\<not> c < 32" and s: "scanstring cs = Some (t1, r)"
        by (auto split: option.splits if_splits)
      from 2(2) [OF n34 False c s] show ?thesis by simp
    qed
  qed
qed

lemma scan_frac_shorter: "scan_frac r = Some t \<Longrightarrow> length t \<le> length r"
proof -
  assume a: "scan_frac r = Some t"
  then obtain p x u where "r = p # x # u" "t = dropWhile is_digit (x # u)"
    by (auto simp: scan_frac_def split: list.splits if_splits)
  then show ?thesis
    using length_dropWhile_le [of is_digit "x # u"] by simp
qed

lemma scan_exp_shorter: "scan_exp r = Some t \<Longrightarrow> length t \<le> length r"
proof -
  assume a: "scan_exp r = Some t"
  then obtain e e1 where r: "r = e # e1" by (cases r) (auto simp: scan_exp_def)
  define e2 where "e2 = (if e1 \<noteq> [] \<and> (hd e1 = 45 \<or> hd e1 = 43) then tl e1 else e1)"
  have "length e2 \<le> length e1" by (simp add: e2_def)
  moreover from a r have "t = dropWhile is_digit e2"
    by (auto simp: scan_exp_def e2_def Let_def split: if_splits)
  ultimately show ?thesis
    using r length_dropWhile_le [of is_digit e2] by simp
qed

lemma match_number_shorter:
  assumes "match_number s = Some (v, r)"
  shows "length r < length s"
proof -
  define s1 where "s1 = (if s \<noteq> [] \<and> hd s = 45 then tl s else s)"
  have l1: "length s1 \<le> length s" by (simp add: s1_def)
  from assms obtain d r0 where d: "s1 = d # r0"
    by (cases s1) (simp_all add: match_number_def Let_def s1_def)
  define r1 where "r1 = (if d = 48 then r0 else dropWhile is_digit r0)"
  define r2 where "r2 = (case scan_frac r1 of Some t \<Rightarrow> t | None \<Rightarrow> r1)"
  define r3 where "r3 = (case scan_exp r2 of Some t \<Rightarrow> t | None \<Rightarrow> r2)"
  have "match_number s =
      (if \<not> is_digit d then None
       else if scan_frac r1 \<noteq> None \<or> scan_exp r2 \<noteq> None
            then Some (JFloat (take (length s - length r3) s), r3)
            else Some (JInt (if s \<noteq> [] \<and> hd s = 45
                             then - int (int_of_digits (if d = 48 then [d] else d # takeWhile is_digit r0))
                             else int (int_of_digits (if d = 48 then [d] else d # takeWhile is_digit r0))), r3))"
    using d unfolding match_number_def Let_def s1_def [symmetric] r3_def r2_def r1_def
    by simp
  with assms have "r = r3"
    by (cases "is_digit d"; cases "scan_frac r1 \<noteq> None \<or> scan_exp r2 \<noteq> None") simp_all
  moreover have "length r1 \<le> length r0"
    by (simp add: r1_def length_dropWhile_le)
  moreover have "length r2 \<le> length r1"
    by (cases "scan_frac r1") (simp_all add: r2_def scan_frac_shorter)
  moreover have "length r3 \<le> length r2"
    by (cases "scan_exp r2") (simp_all add: r3_def scan_exp_shorter)
  ultimately show ?thesis using l1 d by simp
qed

lemma skip_ws_le: "length (skip_ws s) \<le> length s"
  by (simp add: skip_ws_def length_dropWhile_le)

lemma skip_ws_Cons_less: "skip_ws s = d # t \<Longrightarrow> length t < length s"
  using skip_ws_le [of s] by simp

lemma match_number_kind: "match_number s = Some (v, r) \<Longrightarrow> keys_distinct v"
  by (auto simp: match_number_def Let_def split: list.splits if_splits)

lemma dict_set_keys: "fst ` set (dict_set k v d) = insert k (fst ` set d)"
  by (induction k v d rule: dict_set.induct) (simp_all add: insert_commute)

lemma dict_set_distinct: "distinct (map fst d) \<Longrightarrow> distinct (map fst (dict_set k v d))"
proof (induction d)
  case Nil
  then show ?case by simp
next
  case (Cons kv d)
  obtain k' v' where kv: "kv = (k', v')" by (cases kv)
  show ?case
  proof (cases "k = k'")
    case True
    with Cons.prems kv show ?thesis by simp
  next
    case False
    have "k' \<notin> fst ` set (dict_set k v d)"
      using Cons.prems kv False by (simp add: dict_set_keys)
    with Cons False kv show ?thesis by simp
  qed
qed

lemma dict_set_values: "set (dict_set k v d) \<subseteq> insert (k, v) (set d)"
  by (induction d) (auto split: if_splits)

lemma dict_fold_props:
  "distinct (map fst acc) \<Longrightarrow>
   distinct (map fst (foldl (\<lambda>d (k, v). dict_set k v d) acc kvs)) \<and>
   set (foldl (\<lambda>d (k, v). dict_set k v d) acc kvs) \<subseteq> set acc \<union> set kvs"
proof (induction kvs arbitrary: acc)
  case Nil
  then show ?case by simp
next
  case (Cons kv kvs)
  obtain k v where kv: "kv = (k, v)" by (cases kv)
  from Cons.IH [OF dict_set_distinct [OF Cons.prems, of k v]] dict_set_values [of k v acc] kv
  show ?case by auto
qed

lemma dict_of_pairs_props:
  "distinct (map fst (dict_of_pairs kvs))" "set (dict_of_pairs kvs) \<subseteq> set kvs"
  using dict_fold_props [of "[]" kvs] by (simp_all add: dict_of_pairs_def)

lemma parse_value_cases:
  assumes "parse_value (c # cs) = Some (v, r)"
  obtains (string) t where "c = 34" "scanstring cs = Some (t, r)" "v = JString t"
    | (empty_object) "c = 123" "skip_ws cs \<noteq> []" "hd (skip_ws cs) = 125" "r = tl (skip_ws cs)"
        "v = JObject []"
    | (object) kvs where "c \<noteq> 34" "c = 123" "\<not> (skip_ws cs \<noteq> [] \<and> hd (skip_ws cs) = 125)"
        "parse_members (skip_ws cs) = Some (kvs, r)" "v = JObject (dict_of_pairs kvs)"
    | (empty_array) "c = 91" "skip_ws cs \<noteq> []" "hd (skip_ws cs) = 93" "r = tl (skip_ws cs)"
        "v = JArray []"
    | (array) vs where "c \<noteq> 34" "c \<noteq> 123" "c = 91" "\<not> (skip_ws cs \<noteq> [] \<and> hd (skip_ws cs) = 93)"
        "parse_items (skip_ws cs) = Some (vs, r)" "v = JArray vs"
    | (literal) "length r < Suc (length cs)" "keys_distinct v"
    | (number) "match_number (c # cs) = Some (v, r)"
proof -
  consider "c = 34" | "c \<noteq> 34" "c = 123" | "c \<noteq> 34" "c \<noteq> 123" "c = 91"
    | "c \<noteq> 34" "c \<noteq> 123" "c \<noteq> 91" by blast
  then show ?thesis
  proof cases
    case 1
    with assms show ?thesis
      by (auto split: option.splits intro: string)
  next
    case 2
    with assms show ?thesis
      by (cases "skip_ws cs \<noteq> [] \<and> hd (skip_ws cs) = 125")
        (auto split: option.splits intro: empty_object object)
  next
    case 3
    with assms show ?thesis
      by (cases "skip_ws cs \<noteq> [] \<and> hd (skip_ws cs) = 93")
        (auto split: option.splits intro: empty_array array)
  next
    case 4
    with assms have "parse_value (c # cs) =
      (if take 4 (c # cs) = str ''null'' then Some (JNull, drop 4 (c # cs))
       else if take 4 (c # cs) = str ''true'' then Some (JBool True, drop 4 (c # cs))
       else if take 5 (c # cs) = str ''false'' then Some (JBool False, drop 5 (c # cs))
       else if take 3 (c # cs) = str ''NaN'' then Some (JFloat (str ''NaN''), drop 3 (c # cs))
       else if take 8 (c # cs) = str ''Infinity'' then Some (JFloat (str ''Infinity''), drop 8 (c # cs))
       else if take 9 (c # cs) = str ''-Infinity'' then Some (JFloat (str ''-Infinity''), drop 9 (c # cs))
       else match_number (c # cs))"
      by (simp only: parse_value.simps if_False)
    with assms have "(length r < Suc (length cs) \<and> keys_distinct v) \<or>
        match_number (c # cs) = Some (v, r)"
      by (auto simp del: parse_value.simps split: if_splits)
    then show ?thesis using literal number by blast
  qed
qed

lemma parse_items_cases:
  assumes "parse_items s = Some (vs, r)"
  obtains (last) v r1 where "parse_value s = Some (v, r1)" "length r1 < length s"
        "skip_ws r1 = 93 # r" "vs = [v]"
    | (more) v r1 r2 vs' where "parse_value s = Some (v, r1)" "length r1 < length s"
        "skip_ws r1 = 44 # r2" "parse_items (skip_ws r2) = Some (vs', r)" "vs = v # vs'"
proof -
  from assms obtain v r1 where v: "parse_value s = Some (v, r1)"
    by (subst (asm) parse_items.simps) (auto split: option.splits)
  with assms have len: "length r1 < length s"
    by (subst (asm) parse_items.simps) (auto split: if_splits)
  with v assms obtain d r2 where d: "skip_ws r1 = d # r2"
    by (subst (asm) parse_items.simps) (auto split: list.splits)
  from assms v len d have "(d = 93 \<and> vs = [v] \<and> r = r2) \<or>
      (d = 44 \<and> (\<exists>vs'. parse_items (skip_ws r2) = Some (vs', r) \<and> vs = v # vs'))"
    by (subst (asm) parse_items.simps) (auto simp del: parse_items.simps split: if_splits option.splits)
  with v len d show ?thesis using last more by blast
qed

lemma parse_members_cases:
  assumes "parse_members s = Some (kvs, r)"
  obtains (last) s1 key r1 r2 v r4 where "s = 34 # s1" "scanstring s1 = Some (key, r1)"
        "skip_ws r1 = 58 # r2" "parse_value (skip_ws r2) = Some (v, r4)"
        "length r4 < length (skip_ws r2)" "skip_ws r4 = 125 # r" "kvs = [(key, v)]"
    | (more) s1 key r1 r2 v r4 r6 kvs' where "s = 34 # s1" "scanstring s1 = Some (key, r1)"
        "skip_ws r1 = 58 # r2" "parse_value (skip_ws r2) = Some (v, r4)"
        "length r4 < length (skip_ws r2)" "skip_ws r4 = 44 # r6"
        "parse_members (skip_ws r6) = Some (kvs', r)" "kvs = (key, v) # kvs'"
proof -
  from assms obtain s1 where s: "s = 34 # s1"
    by (subst (asm) parse_members.simps) (auto split: list.splits if_splits)
  with assms obtain key r1 where k: "scanstring s1 = Some (key, r1)"
    by (subst (asm) parse_members.simps) (auto split: option.splits)
  with s assms obtain col r2 where c: "skip_ws r1 = col # r2"
    by (subst (asm) parse_members.simps) (auto split: list.splits if_splits)
  with s k assms have col: "col = 58"
    by (subst (asm) parse_members.simps) (auto split: if_splits)
  with s k c assms obtain v r4 where v: "parse_value (skip_ws r2) = Some (v, r4)"
    by (subst (asm) parse_members.simps) (auto split: option.splits if_splits)
  with s k c col assms have len: "length r4 < length (skip_ws r2)"
    by (subst (asm) parse_members.simps) (auto split: if_splits)
  with s k c col v assms obtain d r6 where d: "skip_ws r4 = d # r6"
    by (subst (asm) parse_members.simps) (auto split: list.splits if_splits)
  from assms s k c col v len d have "(d = 125 \<and> kvs = [(key, v)] \<and> r = r6) \<or>
      (d = 44 \<and> (\<exists>kvs'. parse_members (skip_ws r6) = Some (kvs', r) \<and> kvs = (key, v) # kvs'))"
    by (subst (asm) parse_members.simps)
      (auto simp del: parse_members.simps split: if_splits option.splits)
  with s k c col v len d show ?thesis using last more by blast
qed

lemma parse_props:
  shows "\<forall>v r. parse_value s = Some (v, r) \<longrightarrow> length r < length s \<and> keys_distinct v"
    and "\<forall>vs r. parse_items s' = Some (vs, r) \<longrightarrow>
           length r < length s' \<and> (\<forall>v\<in>set vs. keys_distinct v)"
    and "\<forall>kvs r. parse_members s'' = Some (kvs, r) \<longrightarrow>
           length r < length s'' \<and> (\<forall>kv\<in>set kvs. keys_distinct (snd kv))"
proof (induction s and s' and s'' rule: parse_value_parse_items_parse_members.induct)
  case 1
  show ?case by simp
next
  case (2 c cs)
  show ?case
  proof (intro allI impI)
    fix v r
    assume p: "parse_value (c # cs) = Some (v, r)"
    from p show "length r < length (c # cs) \<and> keys_distinct v"
    proof (cases rule: parse_value_cases)
      case (string t)
      with scanstring_shorter [of cs t r] show ?thesis by simp
    next
      case empty_object
      with skip_ws_le [of cs] show ?thesis by (cases "skip_ws cs") auto
    next
      case (object kvs)
      from "2.IH"(1) [OF object(1,2,3)] object(4)
      have "length r < length (skip_ws cs)" "\<forall>kv\<in>set kvs. keys_distinct (snd kv)"
        by blast+
      with skip_ws_le [of cs] dict_of_pairs_props [of kvs] object(5) show ?thesis
        by auto
    next
      case empty_array
      with skip_ws_le [of cs] show ?thesis by (cases "skip_ws cs") auto
    next
      case (array vs)
      from "2.IH"(2) [OF array(1,2,3,4)] array(5)
      have "length r < length (skip_ws cs)" "\<forall>v\<in>set vs. keys_distinct v"
        by blast+
      with skip_ws_le [of cs] array(6) show ?thesis by auto
    next
      case literal
      then show ?thesis by simp
    next
      case number
      with match_number_shorter [of "c # cs" v r] match_number_kind [of "c # cs" v r]
      show ?thesis by simp
    qed
  qed
next
  case (3 s)
  show ?case
  proof (intro allI impI)
    fix vs r
    assume p: "parse_items s = Some (vs, r)"
    from p show "length r < length s \<and> (\<forall>v\<in>set vs. keys_distinct v)"
    proof (cases rule: parse_items_cases)
      case (last v r1)
      from "3.IH"(1) last(1) have "keys_distinct v" by blast
      with last skip_ws_Cons_less [OF last(3)] show ?thesis by simp
    next
      case (more v r1 r2 vs')
      from "3.IH"(1) more(1) have kv: "keys_distinct v" by blast
      have "length r < length (skip_ws r2) \<and> (\<forall>v\<in>set vs'. keys_distinct v)"
        using "3.IH"(2) [OF more(1) refl more(2) more(3)] more by simp
      with kv more skip_ws_Cons_less [OF more(3)] skip_ws_le [of r2] show ?thesis by simp
    qed
  qed
next
  case (4 s)
  show ?case
  proof (intro allI impI)
    fix kvs r
    assume p: "parse_members s = Some (kvs, r)"
    from p show "length r < length s \<and> (\<forall>kv\<in>set kvs. keys_distinct (snd kv))"
    proof (cases rule: parse_members_cases)
      case (last s1 key r1 r2 v r4)
      have "keys_distinct v"
        using "4.IH"(1) [OF last(1) _ last(2) refl _ last(3)] last
          scanstring_shorter [OF last(2)] by simp
      with last skip_ws_Cons_less [OF last(6)] skip_ws_le [of r2]
        skip_ws_Cons_less [OF last(3)] scanstring_shorter [OF last(2)]
      show ?thesis by simp
    next
      case (more s1 key r1 r2 v r4 r6 kvs')
      have kv: "keys_distinct v"
        using "4.IH"(1) [OF more(1) _ more(2) refl _ more(3)] more
          scanstring_shorter [OF more(2)] by simp
      have "length r < length (skip_ws r6) \<and> (\<forall>kv\<in>set kvs'. keys_distinct (snd kv))"
        using "4.IH"(2) [OF more(1) _ more(2) refl _ more(3) _ more(4) refl more(5) more(6)]
          more scanstring_shorter [OF more(2)] by simp
      with kv more skip_ws_Cons_less [OF more(6)] skip_ws_le [of r2] skip_ws_le [of r6]
        skip_ws_Cons_less [OF more(3)] scanstring_shorter [OF more(2)]
      show ?thesis by simp
    qed
  qed
qed

section \<open>Decoding what the encoder wrote\<close>










declare str_nat.simps [simp del]













declare parse_items.simps [simp del] parse_members.simps [simp del]


















lemma parse_value_shorter: "parse_value s = Some (v, r) \<Longrightarrow> length r < length s"
  using parse_props(1) [of s] by blast


section \<open>The JSON array patcher\<close>





lemma search_quoted_Cons: "search_quoted v s \<Longrightarrow> search_quoted v (c # s)"
  by simp







































end
